theory Spec2Isabelle
  imports Main "HOL-Library.Product_Lexorder" "HOL-Library.Multiset"
begin

section \<open>Python values and exceptions\<close>

text \<open>
  The exceptions that the modelled part of \<open>floorplan_generator.py\<close> can raise:
  a failed dict subscript (\<open>KeyError\<close>, carrying the key), a failed \<open>list.remove\<close>
  (\<open>ValueError\<close>, carrying the element), a subscript of an empty list (\<open>IndexError\<close>),
  \<open>.group()\<close> on the \<open>None\<close> that \<open>regex.search\<close> returns without a match
  (\<open>AttributeError\<close>), and a text that \<open>json.loads\<close> cannot decode (\<open>JSONDecodeError\<close>).
  \<open>RecursionError\<close> is what the model of the decoder raises when its calls nest deeper
  than their bound.
\<close>

datatype error = KeyError string | ValueError "nat \<times> int \<times> nat" | IndexError | AttributeError
  | JSONDecodeError | RecursionError

type_synonym triple = "nat \<times> int \<times> nat"

text \<open>Sequencing of a computation that may raise.\<close>

definition bind_res :: "error + 'a \<Rightarrow> ('a \<Rightarrow> error + 'b) \<Rightarrow> error + 'b" where
  "bind_res r f = (case r of Inl e \<Rightarrow> Inl e | Inr x \<Rightarrow> f x)"

text \<open>A list comprehension whose element expression may raise: the first exception wins.\<close>

fun map_res :: "('a \<Rightarrow> error + 'b) \<Rightarrow> 'a list \<Rightarrow> error + 'b list" where
  "map_res f [] = Inr []"
| "map_res f (x # xs) =
     bind_res (f x) (\<lambda>y. bind_res (map_res f xs) (\<lambda>ys. Inr (y # ys)))"

text \<open>A \<open>for\<close> loop over a list whose body updates one variable and may raise.\<close>

fun fold_res :: "('a \<Rightarrow> 's \<Rightarrow> error + 's) \<Rightarrow> 'a list \<Rightarrow> 's \<Rightarrow> error + 's" where
  "fold_res f [] s = Inr s"
| "fold_res f (x # xs) s = bind_res (f x s) (fold_res f xs)"

text \<open>\<open>dict(pairs)\<close> and dict comprehensions: a later entry overrides an earlier one.\<close>

definition py_dict :: "('k \<times> 'v) list \<Rightarrow> ('k \<rightharpoonup> 'v)" where
  "py_dict kvs = map_of (rev kvs)"

text \<open>\<open>d[k]\<close> on a dict with string keys.\<close>

definition getitem :: "(string \<rightharpoonup> 'v) \<Rightarrow> string \<Rightarrow> error + 'v" where
  "getitem d k = (case d k of None \<Rightarrow> Inl (KeyError k) | Some v \<Rightarrow> Inr v)"

text \<open>\<open>xs.remove(x)\<close>: drops the first occurrence, raises when there is none.\<close>

definition list_remove :: "triple \<Rightarrow> triple list \<Rightarrow> error + triple list" where
  "list_remove x xs = (if x \<in> set xs then Inr (remove1 x xs) else Inl (ValueError x))"

text \<open>\<open>str(i)\<close> for a non-negative integer: its decimal digits.\<close>

definition digit_char :: "nat \<Rightarrow> char" where
  "digit_char d = ''0123456789'' ! d"

fun str :: "nat \<Rightarrow> string" where
  "str n = (if n < 10 then [digit_char n] else str (n div 10) @ [digit_char (n mod 10)])"

declare str.simps [simp del]

text \<open>\<open>enumerate(xs, 1)\<close>.\<close>

definition enumerate1 :: "'a list \<Rightarrow> (nat \<times> 'a) list" where
  "enumerate1 xs = zip [1..<Suc (length xs)] xs"

section \<open>The bubble-diagram compiler (\<open>generate_bubble_diagram\<close>)\<close>

text \<open>
  The four fields of the parsed language-model response. A connection is a pair of room
  names (\<open>pair[0]\<close>, \<open>pair[1]\<close>).
\<close>

record response =
  complete_room_list :: "string list"
  modified_room_list :: "string list"
  connection :: "(string \<times> string) list"
  front_door :: "string list"

text \<open>\<open>room_name_dict = dict(zip(complete_room_list, room_list))\<close>\<close>

definition room_name_dict :: "response \<Rightarrow> (string \<rightharpoonup> string)" where
  "room_name_dict r = py_dict (zip (complete_room_list r) (modified_room_list r))"

text \<open>\<open>real_nodes_len = len(room_list)\<close>, read before the door names are appended.\<close>

definition real_nodes_len :: "response \<Rightarrow> nat" where
  "real_nodes_len r = length (modified_room_list r)"

text \<open>
  \<open>connection = [[room_name_dict[pair[0]], room_name_dict[pair[1]]] for pair in connection]\<close>
\<close>

definition raw_connection :: "response \<Rightarrow> error + (string \<times> string) list" where
  "raw_connection r =
     map_res (\<lambda>pair. bind_res (getitem (room_name_dict r) (fst pair)) (\<lambda>a.
                      bind_res (getitem (room_name_dict r) (snd pair)) (\<lambda>b. Inr (a, b))))
       (connection r)"

text \<open>\<open>front_door = [room_name_dict[door] for door in front_door]\<close>\<close>

definition front_door_std :: "response \<Rightarrow> error + string list" where
  "front_door_std r = map_res (getitem (room_name_dict r)) (front_door r)"

text \<open>The names of the synthesized door nodes, numbered from 1.\<close>

definition interior_door_list :: "nat \<Rightarrow> string list" where
  "interior_door_list n = map (\<lambda>i. ''interior_door'' @ str i) [1..<Suc n]"

definition front_door_list :: "nat \<Rightarrow> string list" where
  "front_door_list n = map (\<lambda>i. ''front_door'' @ str i) [1..<Suc n]"

text \<open>\<open>room_list\<close> after the two \<open>extend\<close> calls.\<close>

definition room_list_ext :: "response \<Rightarrow> string list" where
  "room_list_ext r =
     modified_room_list r @ interior_door_list (length (connection r))
       @ front_door_list (length (front_door r))"

text \<open>
  \<open>connection = [(pair[0], "interior_door" + str(i), pair[1])
     for i, pair in enumerate(connection, 1)]\<close>
\<close>

definition named_connection :: "(string \<times> string) list \<Rightarrow> (string \<times> string \<times> string) list" where
  "named_connection conn =
     map (\<lambda>(i, pair). (fst pair, ''interior_door'' @ str i, snd pair)) (enumerate1 conn)"

text \<open>The registry of type codes.\<close>

definition type_list :: "string \<rightharpoonup> nat" where
  "type_list = py_dict
     [(''living_room'', 1), (''kitchen'', 2), (''bedroom'', 3), (''bathroom'', 4),
      (''balcony'', 5), (''entrance'', 6), (''dining_room'', 7), (''study_room'', 8),
      (''storage'', 10), (''front_door'', 15), (''unknown'', 16), (''interior_door'', 17)]"

text \<open>
  \<open>room_list_indices = [type_list[room[:-1]] if room[:-1] in type_list
     else type_list["unknown"] for room in room_list]\<close>
\<close>

definition type_code :: "string \<Rightarrow> nat" where
  "type_code room =
     (case type_list (butlast room) of Some c \<Rightarrow> c | None \<Rightarrow> the (type_list ''unknown''))"

definition room_list_indices :: "string list \<Rightarrow> nat list" where
  "room_list_indices room_list = map type_code room_list"

text \<open>\<open>room_dict = {room: i for i, room in enumerate(room_list)}\<close>\<close>

definition room_dict :: "string list \<Rightarrow> (string \<rightharpoonup> nat)" where
  "room_dict room_list = py_dict (zip room_list [0..<length room_list])"

text \<open>
  \<open>connection = [(room_dict[pair[0]], room_dict[pair[1]], room_dict[pair[2]])
     for pair in connection]\<close>
\<close>

definition index_connection ::
  "(string \<rightharpoonup> nat) \<Rightarrow> (string \<times> string \<times> string) list \<Rightarrow> error + (nat \<times> nat \<times> nat) list" where
  "index_connection rd conn =
     map_res (\<lambda>(a, d, b). bind_res (getitem rd a) (\<lambda>ia.
                           bind_res (getitem rd d) (\<lambda>idx.
                           bind_res (getitem rd b) (\<lambda>ib. Inr (ia, idx, ib)))))
       conn"

text \<open>The index pairs \<open>(i, j)\<close>, \<open>j > i\<close>, in the order the two nested loops visit them.\<close>

definition index_pairs :: "nat \<Rightarrow> (nat \<times> nat) list" where
  "index_pairs n = concat (map (\<lambda>i. map (\<lambda>j. (i, j)) (filter (\<lambda>j. j > i) [0..<n])) [0..<n])"

text \<open>The initial triples: every pair at polarity \<open>-1\<close>.\<close>

definition initial_triples :: "nat \<Rightarrow> triple list" where
  "initial_triples n = map (\<lambda>(i, j). (i, -1, j)) (index_pairs n)"

text \<open>\<open>i in e_map\<close> for a 3-tuple of indices.\<close>

definition in_tuple :: "nat \<Rightarrow> nat \<times> nat \<times> nat \<Rightarrow> bool" where
  "in_tuple i e = (case e of (a, d, b) \<Rightarrow> i = a \<or> i = d \<or> i = b)"

text \<open>
  \<open>is_adjacent = any([True for e_map in connection if (i in e_map) and (j in e_map)])\<close>
\<close>

definition is_adjacent :: "(nat \<times> nat \<times> nat) list \<Rightarrow> nat \<Rightarrow> nat \<Rightarrow> bool" where
  "is_adjacent conn i j = list_ex (\<lambda>e. in_tuple i e \<and> in_tuple j e) conn"

text \<open>
  \<open>edge = [pair[1] for pair in connection
     if (pair[0] == i and pair[2] == j) or (pair[0] == j and pair[2] == i)]\<close>
\<close>

definition edge_of :: "(nat \<times> nat \<times> nat) list \<Rightarrow> nat \<Rightarrow> nat \<Rightarrow> nat list" where
  "edge_of conn i j =
     map (\<lambda>(a, d, b). d) (filter (\<lambda>(a, d, b). (a = i \<and> b = j) \<or> (a = j \<and> b = i)) conn)"

text \<open>The body of the adjacency loop for one pair \<open>j > i\<close> of real-room indices.\<close>

definition adjacency_step ::
  "(nat \<times> nat \<times> nat) list \<Rightarrow> nat \<times> nat \<Rightarrow> triple list \<Rightarrow> error + triple list" where
  "adjacency_step conn p triples =
     (case p of (i, j) \<Rightarrow>
        if is_adjacent conn i j then
          (case edge_of conn i j of
             [] \<Rightarrow> Inl IndexError
           | d # _ \<Rightarrow>
               bind_res (list_remove (i, -1, d) triples) (\<lambda>t1.
               bind_res (list_remove (j, -1, d) t1) (\<lambda>t2.
               bind_res (list_remove (i, -1, j) t2) (\<lambda>t3.
               Inr (t3 @ [(i, 1, d), (j, 1, d), (i, 1, j)])))))
        else Inr triples)"

definition adjacency_loop ::
  "nat \<Rightarrow> (nat \<times> nat \<times> nat) list \<Rightarrow> triple list \<Rightarrow> error + triple list" where
  "adjacency_loop m conn triples = fold_res (adjacency_step conn) (index_pairs m) triples"

text \<open>The body of the front-door loop for one entry of \<open>enumerate(front_door, 1)\<close>.\<close>

definition front_door_step ::
  "(string \<rightharpoonup> nat) \<Rightarrow> nat \<times> string \<Rightarrow> triple list \<Rightarrow> error + triple list" where
  "front_door_step rd p triples =
     (case p of (i, room) \<Rightarrow>
        bind_res (getitem rd room) (\<lambda>ir.
        bind_res (getitem rd (''front_door'' @ str i)) (\<lambda>f.
        bind_res (list_remove (ir, -1, f) triples) (\<lambda>t1.
        bind_res (getitem rd room) (\<lambda>ir'.
        bind_res (getitem rd (''front_door'' @ str i)) (\<lambda>f'.
        Inr (t1 @ [(ir', 1, f')])))))))"

definition front_door_loop ::
  "(string \<rightharpoonup> nat) \<Rightarrow> string list \<Rightarrow> triple list \<Rightarrow> error + triple list" where
  "front_door_loop rd fd triples = fold_res (front_door_step rd) (enumerate1 fd) triples"

text \<open>\<open>sorted(triples, key=lambda x: (x[0], x[2]))\<close>; both sorts are stable.\<close>

definition triple_key :: "triple \<Rightarrow> nat \<times> nat" where
  "triple_key t = (case t of (i, s, j) \<Rightarrow> (i, j))"

definition organize :: "triple list \<Rightarrow> triple list" where
  "organize triples = sort_key triple_key triples"

text \<open>
  What \<open>generate_bubble_diagram\<close> returns: the type code of every node (the argument of
  the one-hot embedding), the sorted edge triples, \<open>room_name_dict\<close> and \<open>room_list\<close>.
\<close>

record bubble_diagram =
  node_codes :: "nat list"
  graph_edges :: "triple list"
  name_dict :: "string \<rightharpoonup> string"
  room_names :: "string list"

definition generate_bubble_diagram :: "response \<Rightarrow> error + bubble_diagram" where
  "generate_bubble_diagram r =
     bind_res (raw_connection r) (\<lambda>conn.
     bind_res (front_door_std r) (\<lambda>fd.
       let room_list = room_list_ext r;
           rd = room_dict room_list
       in bind_res (index_connection rd (named_connection conn)) (\<lambda>iconn.
          bind_res (adjacency_loop (real_nodes_len r) iconn
                      (initial_triples (length room_list))) (\<lambda>t1.
          bind_res (front_door_loop rd fd t1) (\<lambda>t2.
          Inr \<lparr> node_codes = room_list_indices room_list,
                graph_edges = organize t2,
                name_dict = room_name_dict r,
                room_names = room_list \<rparr>)))))"

subsection \<open>The keys of the decoded response\<close>

text \<open>
  The code takes the four keys out of the decoded response one at a time with
  \<open>response[key]\<close>, which raises \<open>KeyError\<close> carrying the key when the dict lacks it.
  \<open>response_dict\<close> is the decoded response with each of the four keys present or missing.
\<close>

record response_dict =
  complete_room_list_item :: "string list option"
  modified_room_list_item :: "string list option"
  connection_item :: "(string \<times> string) list option"
  front_door_item :: "string list option"

definition subscript :: "string \<Rightarrow> 'a option \<Rightarrow> error + 'a" where
  "subscript key item = (case item of None \<Rightarrow> Inl (KeyError key) | Some v \<Rightarrow> Inr v)"

text \<open>
  The reads in the order of the code: \<open>response["complete_room_list"]\<close>,
  \<open>response["modified_room_list"]\<close> and \<open>response["connection"]\<close>, then the lookup of the
  connection entries in \<open>room_name_dict\<close>, and only then \<open>response["front_door"]\<close>. From
  there on the function runs on the four values read.
\<close>

definition generate_bubble_diagram_dict :: "response_dict \<Rightarrow> error + bubble_diagram" where
  "generate_bubble_diagram_dict d =
     bind_res (subscript ''complete_room_list'' (complete_room_list_item d)) (\<lambda>complete.
     bind_res (subscript ''modified_room_list'' (modified_room_list_item d)) (\<lambda>modified.
     bind_res (subscript ''connection'' (connection_item d)) (\<lambda>conn.
     bind_res (raw_connection \<lparr> complete_room_list = complete, modified_room_list = modified,
                                connection = conn, front_door = [] \<rparr>) (\<lambda>looked_up.
     bind_res (subscript ''front_door'' (front_door_item d)) (\<lambda>doors.
       generate_bubble_diagram \<lparr> complete_room_list = complete, modified_room_list = modified,
                                 connection = conn, front_door = doors \<rparr>)))))"

text \<open>The decoded response that has all four keys.\<close>

definition response_items :: "response \<Rightarrow> response_dict" where
  "response_items r =
     \<lparr> complete_room_list_item = Some (complete_room_list r),
       modified_room_list_item = Some (modified_room_list r),
       connection_item = Some (connection r),
       front_door_item = Some (front_door r) \<rparr>"

subsection \<open>Vocabulary for statements about compiled graphs\<close>

text \<open>
  The node that the compiler binds to a room name of \<open>complete_room_list\<close>: the two
  lookups \<open>room_dict[room_name_dict[name]]\<close> that the code performs for every connection
  endpoint and front-door entry.
\<close>

definition node_index :: "response \<Rightarrow> string \<Rightarrow> nat option" where
  "node_index r name =
     (case room_name_dict r name of None \<Rightarrow> None
      | Some s \<Rightarrow> room_dict (room_list_ext r) s)"

text \<open>The total node count and the index ranges of the two kinds of door nodes.\<close>

definition node_count :: "response \<Rightarrow> nat" where
  "node_count r =
     length (modified_room_list r) + length (connection r) + length (front_door r)"

definition interior_door_node :: "response \<Rightarrow> nat \<Rightarrow> nat" where
  "interior_door_node r k = real_nodes_len r + k"

definition front_door_node :: "response \<Rightarrow> nat \<Rightarrow> nat" where
  "front_door_node r k = real_nodes_len r + length (connection r) + k"

text \<open>
  The edge between two nodes, whichever of the two has the smaller index, carries
  polarity \<open>s\<close>.
\<close>

definition signed_edge :: "triple list \<Rightarrow> nat \<Rightarrow> int \<Rightarrow> nat \<Rightarrow> bool" where
  "signed_edge es i s j = ((min i j, s, max i j) \<in> set es)"

text \<open>
  The names of an input resolve when the lists of room names and of standardized names
  correspond position by position, every connection and front-door entry names a room
  of \<open>complete_room_list\<close>, and the node names are pairwise distinct (\<open>room_list\<close>, as
  the code indexes it: the standardized names, followed by the names of the door nodes).
\<close>

definition names_resolve :: "response \<Rightarrow> bool" where
  "names_resolve r =
     (length (complete_room_list r) = length (modified_room_list r)
      \<and> list_all (\<lambda>pair. fst pair \<in> set (complete_room_list r)
                         \<and> snd pair \<in> set (complete_room_list r)) (connection r)
      \<and> list_all (\<lambda>door. door \<in> set (complete_room_list r)) (front_door r)
      \<and> distinct (room_list_ext r))"

text \<open>
  Well-formed input: the names resolve, no connection joins a room to itself, and no
  unordered pair of rooms is declared twice.
\<close>

definition well_formed :: "response \<Rightarrow> bool" where
  "well_formed r =
     (names_resolve r
      \<and> list_all (\<lambda>pair. fst pair \<noteq> snd pair) (connection r)
      \<and> distinct (map (\<lambda>pair. {fst pair, snd pair}) (connection r)))"

text \<open>
  Connection number \<open>k\<close> (counted from 0) joins the nodes \<open>i\<close> and \<open>j\<close>, in either order;
  it is the first connection of the list to do so.
\<close>

definition declares :: "response \<Rightarrow> nat \<Rightarrow> nat \<Rightarrow> nat \<Rightarrow> bool" where
  "declares r k i j =
     (k < length (connection r)
      \<and> ((node_index r (fst (connection r ! k)) = Some i
            \<and> node_index r (snd (connection r ! k)) = Some j)
         \<or> (node_index r (fst (connection r ! k)) = Some j
            \<and> node_index r (snd (connection r ! k)) = Some i)))"

definition first_declares :: "response \<Rightarrow> nat \<Rightarrow> nat \<Rightarrow> nat \<Rightarrow> bool" where
  "first_declares r k i j = (declares r k i j \<and> (\<forall>k' < k. \<not> declares r k' i j))"

text \<open>
  The pairs of nodes that the declarations of an input ask to be adjacent: two distinct
  rooms joined by a connection, each of the two and the door of the first connection that
  joins them, and the room of a front-door entry and the door node of that entry.
\<close>

definition positive_pairs :: "response \<Rightarrow> (nat \<times> nat) set" where
  "positive_pairs r =
     {(i, j) | i j k. i < j \<and> first_declares r k i j}
     \<union> {(i, interior_door_node r k) | i j k. i \<noteq> j \<and> first_declares r k i j}
     \<union> {(i, front_door_node r k) | i k.
          k < length (front_door r) \<and> node_index r (front_door r ! k) = Some i}"

text \<open>
  An input with one more connection, inserted at position \<open>p\<close> of the list, and the
  renumbering of the nodes that makes room for its door node.
\<close>

definition insert_connection :: "nat \<Rightarrow> string \<times> string \<Rightarrow> response \<Rightarrow> response" where
  "insert_connection p pair r =
     r \<lparr> connection := take p (connection r) @ pair # drop p (connection r) \<rparr>"

definition renumber :: "nat \<Rightarrow> nat \<Rightarrow> nat" where
  "renumber d x = (if x < d then x else Suc x)"

subsection \<open>Auxiliary notions for the proofs\<close>

text \<open>
  A triple list that stands for the pairs \<open>N\<close> at polarity \<open>-1\<close> and the pairs \<open>Q\<close> at
  polarity \<open>+1\<close>, with one triple for each pair.
\<close>

definition tri_state :: "(nat \<times> nat) set \<Rightarrow> (nat \<times> nat) set \<Rightarrow> triple list \<Rightarrow> bool" where
  "tri_state N Q ts =
     (distinct (map triple_key ts) \<and> N \<inter> Q = {}
      \<and> set ts = (\<lambda>p. (fst p, -1, snd p)) ` N \<union> (\<lambda>p. (fst p, 1, snd p)) ` Q)"

text \<open>The pairs whose polarity one pass of the adjacency loop body turns to \<open>+1\<close>.\<close>

definition adjacency_flips :: "(nat \<times> nat \<times> nat) list \<Rightarrow> nat \<times> nat \<Rightarrow> (nat \<times> nat) set" where
  "adjacency_flips conn p =
     (case p of (i, j) \<Rightarrow>
        if is_adjacent conn i j then
          (case edge_of conn i j of [] \<Rightarrow> {} | d # _ \<Rightarrow> {(i, d), (j, d), (i, j)})
        else {})"

text \<open>
  A connection or front-door entry is dangling when its name has no entry in
  \<open>room_name_dict\<close>. The names are listed in the order in which the code looks them up.
\<close>

definition referenced_names :: "response \<Rightarrow> string list" where
  "referenced_names r =
     concat (map (\<lambda>pair. [fst pair, snd pair]) (connection r)) @ front_door r"

definition first_dangling :: "response \<Rightarrow> string option" where
  "first_dangling r = find (\<lambda>name. room_name_dict r name = None) (referenced_names r)"

section \<open>The mask refinement loop (\<open>generate_layout_masks\<close>)\<close>

text \<open>
  \<open>real_nodes = np.where(nodes == 1)[-1]\<close>: the column index of every entry of the
  node-feature matrix that equals 1, row by row. For a one-hot matrix this is one type
  column per node, door nodes included.
\<close>

definition np_where_last :: "int list list \<Rightarrow> nat list" where
  "np_where_last nodes =
     concat (map (\<lambda>row. filter (\<lambda>c. row ! c = 1) [0..<length row]) nodes)"

text \<open>\<open>_types = sorted(list(set(real_nodes)))\<close>\<close>

definition sorted_types :: "nat list \<Rightarrow> nat list" where
  "sorted_types real_nodes = sort (remdups real_nodes)"

text \<open>\<open>selected_types = [_types[:k+1] for k in range(10)]\<close>\<close>

definition selected_types :: "nat list \<Rightarrow> nat list list" where
  "selected_types real_nodes = map (\<lambda>k. take (k + 1) (sorted_types real_nodes)) [0..<10]"

text \<open>
  \<open>_fixed_nodes = np.concatenate([np.where(real_nodes == _t)[0] for _t in _types])
     if len(_types) > 0 else np.array([])\<close>
\<close>

definition fixed_nodes_of :: "nat list \<Rightarrow> nat list \<Rightarrow> nat list" where
  "fixed_nodes_of real_nodes types =
     (if length types > 0
      then concat (map (\<lambda>t. filter (\<lambda>p. real_nodes ! p = t) [0..<length real_nodes]) types)
      else [])"

text \<open>The \<open>state\<close> dict handed to \<open>_infer\<close>.\<close>

record 'm mask_state =
  masks :: "'m option"
  fixed_nodes :: "nat list"

text \<open>
  The generator behind \<open>_infer\<close> is a black box: a parameter \<open>infer\<close> that maps the
  graph and a state to masks. One round of the \<open>for\<close> loop builds the state, calls the
  generator and keeps the new masks; the model also records the state of every call.
\<close>

definition refine_round ::
  "('g \<Rightarrow> 'm mask_state \<Rightarrow> 'm) \<Rightarrow> 'g \<Rightarrow> nat list \<Rightarrow> nat list
     \<Rightarrow> 'm \<times> 'm mask_state list \<Rightarrow> 'm \<times> 'm mask_state list" where
  "refine_round infer graph real_nodes types acc =
     (case acc of (ms, calls) \<Rightarrow>
        let state = \<lparr> masks = Some ms, fixed_nodes = fixed_nodes_of real_nodes types \<rparr>
        in (infer graph state, calls @ [state]))"

text \<open>
  \<open>generate_layout_masks\<close>: the returned masks, and the states passed to \<open>_infer\<close> in
  call order.
\<close>

definition generate_layout_masks ::
  "(int list list \<times> triple list \<Rightarrow> 'm mask_state \<Rightarrow> 'm) \<Rightarrow> int list list \<Rightarrow> triple list
     \<Rightarrow> 'm \<times> 'm mask_state list" where
  "generate_layout_masks infer nodes edges =
     (let real_nodes = np_where_last nodes;
          graph = (nodes, edges);
          state = \<lparr> masks = None, fixed_nodes = [] \<rparr>;
          ms = infer graph state
      in fold (refine_round infer graph real_nodes) (selected_types real_nodes) (ms, [state]))"

text \<open>The fixed-node array of every call, in call order.\<close>

definition fixed_schedule ::
  "(int list list \<times> triple list \<Rightarrow> 'm mask_state \<Rightarrow> 'm) \<Rightarrow> int list list \<Rightarrow> triple list
     \<Rightarrow> nat list list" where
  "fixed_schedule infer nodes edges = map fixed_nodes (snd (generate_layout_masks infer nodes edges))"

text \<open>
  Modelled from the spec: \<open>utils.one_hot_embedding\<close> is not among the sources. Each type
  code becomes a one-hot row over \<open>num_classes\<close> codes, and the column of code 0 is
  dropped (\<open>[:, 1:]\<close>).
\<close>

definition one_hot_nodes :: "nat \<Rightarrow> nat list \<Rightarrow> int list list" where
  "one_hot_nodes num_classes codes =
     map (\<lambda>code. drop 1 (map (\<lambda>c. if c = code then 1 else 0) [0..<num_classes])) codes"

text \<open>A generator that returns nothing of interest, to run the loop on concrete graphs.\<close>

definition blank_generator :: "int list list \<times> triple list \<Rightarrow> unit mask_state \<Rightarrow> unit" where
  "blank_generator graph state = ()"

section \<open>Locating the JSON object in the response\<close>

text \<open>\<open>raw_response = response_str.replace("\n", "").replace(" ", "")\<close>\<close>

definition strip_ws :: "string \<Rightarrow> string" where
  "strip_ws s = filter (\<lambda>c. c \<noteq> CHR '' '') (filter (\<lambda>c. c \<noteq> CHR 0x0A) s)"

text \<open>
  The pattern \<^verbatim>\<open>\{(?:[^{}]|(?R))*\}\<close>. After the opening brace, the repetition consumes
  any character other than a brace, or a whole nested match of the pattern; the three
  alternatives for the next character (other character, opening brace, closing brace)
  exclude each other, so no backtracking changes the outcome. \<open>close_brace d cs\<close> matches
  the rest of the pattern inside \<open>d\<close> enclosing recursion levels and returns the matched
  text.
\<close>

fun close_brace :: "nat \<Rightarrow> string \<Rightarrow> string option" where
  "close_brace d [] = None"
| "close_brace d (c # cs) =
     (if c = CHR ''{'' then map_option ((#) c) (close_brace (Suc d) cs)
      else if c = CHR ''}'' then
        (case d of 0 \<Rightarrow> Some [c] | Suc d' \<Rightarrow> map_option ((#) c) (close_brace d' cs))
      else map_option ((#) c) (close_brace d cs))"

text \<open>A match of the pattern at the start of the text.\<close>

definition match_here :: "string \<Rightarrow> string option" where
  "match_here s =
     (case s of [] \<Rightarrow> None
      | c # cs \<Rightarrow> if c = CHR ''{'' then map_option ((#) c) (close_brace 0 cs) else None)"

text \<open>\<open>regex.search\<close>: the match at the leftmost position that has one.\<close>

fun regex_search :: "string \<Rightarrow> string option" where
  "regex_search [] = None"
| "regex_search (c # cs) =
     (case match_here (c # cs) of Some m \<Rightarrow> Some m | None \<Rightarrow> regex_search cs)"

text \<open>
  \<open>regex.search(pattern, raw_response).group()\<close>: without a match, \<open>search\<close> returns
  \<open>None\<close> and \<open>.group()\<close> raises \<open>AttributeError\<close>. The text found goes to \<open>json.loads\<close>.
\<close>

definition search_group :: "string \<Rightarrow> error + string" where
  "search_group response_str =
     (case regex_search (strip_ws response_str) of
        None \<Rightarrow> Inl AttributeError
      | Some m \<Rightarrow> Inr m)"

text \<open>
  The language of the pattern, as a grammar: a body is a sequence of non-brace characters
  and nested objects; an object is a body in braces.
\<close>

inductive brace_body :: "string \<Rightarrow> bool" where
  body_empty: "brace_body []"
| body_char: "c \<noteq> CHR ''{'' \<Longrightarrow> c \<noteq> CHR ''}'' \<Longrightarrow> brace_body s \<Longrightarrow> brace_body (c # s)"
| body_nest: "brace_body b \<Longrightarrow> brace_body s \<Longrightarrow> brace_body (CHR ''{'' # b @ CHR ''}'' # s)"

definition brace_object :: "string \<Rightarrow> bool" where
  "brace_object s = (\<exists>b. brace_body b \<and> s = CHR ''{'' # b @ [CHR ''}''])"

text \<open>Prose: text without braces.\<close>

definition prose :: "string \<Rightarrow> bool" where
  "prose s = (CHR ''{'' \<notin> set s \<and> CHR ''}'' \<notin> set s)"

text \<open>The text contains an object of the pattern's language somewhere.\<close>

definition contains_object :: "string \<Rightarrow> bool" where
  "contains_object s = (\<exists>pre obj post. s = pre @ obj @ post \<and> brace_object obj)"

section \<open>Decoding the JSON text (\<open>json.loads\<close>)\<close>

text \<open>
  \<open>json.loads\<close> belongs to Python's standard library, not to the repository. The model
  follows its decoder (\<open>json/decoder.py\<close> and \<open>json/scanner.py\<close> of CPython 3.11, whose
  names it keeps), in strict mode and without hooks, as \<open>json.loads(text)\<close> runs it.

  The decoded values. A string is the list of its code points, since an escape
  \<^verbatim>\<open>\uXXXX\<close> can name a character beyond the 8-bit characters of the text. A float is
  kept as the literal that Python converts with \<open>float()\<close>, the constants \<open>NaN\<close>,
  \<open>Infinity\<close> and \<open>-Infinity\<close> among them. An object holds its pairs in reading order;
  \<open>dict(pairs)\<close> lets the last pair of a key win.
\<close>

datatype json = JNull | JBool bool | JInt int | JFloat string | JString "nat list"
  | JArray "json list" | JObject "(nat list \<times> json) list"

text \<open>\<open>WHITESPACE\<close>: the pattern \<^verbatim>\<open>[ \t\n\r]*\<close>.\<close>

definition whitespace :: "char \<Rightarrow> bool" where
  "whitespace c = (c = CHR '' '' \<or> c = CHR 0x09 \<or> c = CHR 0x0A \<or> c = CHR 0x0D)"

definition skip_whitespace :: "string \<Rightarrow> string" where
  "skip_whitespace s = dropWhile whitespace s"

text \<open>The four hexadecimal digits of an escape \<^verbatim>\<open>\uXXXX\<close>.\<close>

definition hex_digit :: "char \<Rightarrow> nat option" where
  "hex_digit c =
     (let k = of_char c :: nat in
      if 48 \<le> k \<and> k \<le> 57 then Some (k - 48)
      else if 97 \<le> k \<and> k \<le> 102 then Some (k - 87)
      else if 65 \<le> k \<and> k \<le> 70 then Some (k - 55)
      else None)"

definition decode_uXXXX :: "string \<Rightarrow> nat option" where
  "decode_uXXXX s =
     (if length s < 4 then None
      else foldl (\<lambda>acc c. case (acc, hex_digit c) of
                            (Some a, Some d) \<Rightarrow> Some (a * 16 + d)
                          | _ \<Rightarrow> None)
             (Some 0) (take 4 s))"

text \<open>\<open>BACKSLASH\<close>: the one-character escapes and the code points they stand for.\<close>

definition backslash :: "char \<Rightarrow> nat option" where
  "backslash e =
     (if e = CHR 0x22 then Some 0x22
      else if e = CHR 0x5C then Some 0x5C
      else if e = CHR ''/'' then Some 0x2F
      else if e = CHR ''b'' then Some 0x08
      else if e = CHR ''f'' then Some 0x0C
      else if e = CHR ''n'' then Some 0x0A
      else if e = CHR ''r'' then Some 0x0D
      else if e = CHR ''t'' then Some 0x09
      else None)"

text \<open>
  The text after \<^verbatim>\<open>\u\<close>: four digits; a high surrogate followed by the escape of a low
  surrogate makes one character with it, and stays alone before anything else.
\<close>

definition unicode_escape :: "string \<Rightarrow> (nat \<times> string) option" where
  "unicode_escape s =
     (case decode_uXXXX s of
        None \<Rightarrow> None
      | Some u \<Rightarrow>
          let rest = drop 4 s in
          if 0xD800 \<le> u \<and> u \<le> 0xDBFF \<and> 6 \<le> length rest
             \<and> take 2 rest = [CHR 0x5C, CHR ''u'']
          then (case decode_uXXXX (drop 2 rest) of
                  None \<Rightarrow> None
                | Some u2 \<Rightarrow>
                    if 0xDC00 \<le> u2 \<and> u2 \<le> 0xDFFF
                    then Some (0x10000 + (u - 0xD800) * 1024 + (u2 - 0xDC00), drop 6 rest)
                    else Some (u, rest))
          else Some (u, rest))"

text \<open>The text after a backslash: the character it stands for and the text left.\<close>

definition escape :: "string \<Rightarrow> (nat \<times> string) option" where
  "escape s =
     (case s of
        [] \<Rightarrow> None
      | e # es \<Rightarrow>
          if e = CHR ''u'' then unicode_escape es
          else (case backslash e of None \<Rightarrow> None | Some u \<Rightarrow> Some (u, es)))"

definition chunk :: "nat \<Rightarrow> error + (nat list \<times> string) \<Rightarrow> error + (nat list \<times> string)" where
  "chunk u res = (case res of Inl e \<Rightarrow> Inl e | Inr (content, rest) \<Rightarrow> Inr (u # content, rest))"

text \<open>
  \<open>scanstring\<close>, from the character after the opening quote: the content up to the
  closing quote and the text after it. The text ending before the closing quote, a
  control character and a wrong escape raise \<open>JSONDecodeError\<close>.
\<close>

function scanstring :: "string \<Rightarrow> error + (nat list \<times> string)" where
  "scanstring [] = Inl JSONDecodeError"
| "scanstring (c # cs) =
     (if c = CHR 0x22 then Inr ([], cs)
      else if c = CHR 0x5C then
        (case escape cs of
           None \<Rightarrow> Inl JSONDecodeError
         | Some (u, rest) \<Rightarrow> chunk u (scanstring rest))
      else if of_char c \<le> (0x1F :: nat) then Inl JSONDecodeError
      else chunk (of_char c) (scanstring cs))"
  by pat_completeness auto

termination
  by (relation "measure length")
    (auto simp: escape_def unicode_escape_def Let_def split: list.splits option.splits if_splits)

text \<open>
  \<open>NUMBER_RE\<close>, the pattern \<^verbatim>\<open>(-?(?:0|[1-9][0-9]*))(\.[0-9]+)?([eE][-+]?[0-9]+)?\<close>: the
  sign, the integer part, and the fraction and the exponent when they are complete.
  Without fraction and exponent the number is an \<open>int\<close>.
\<close>

definition digit :: "char \<Rightarrow> bool" where
  "digit c = (48 \<le> (of_char c :: nat) \<and> (of_char c :: nat) \<le> 57)"

definition int_of_digits :: "string \<Rightarrow> int" where
  "int_of_digits ds = foldl (\<lambda>n c. 10 * n + (int (of_char c) - 48)) 0 ds"

definition sign_part :: "string \<Rightarrow> string \<times> string" where
  "sign_part s =
     (case s of [] \<Rightarrow> ([], s) | c # cs \<Rightarrow> if c = CHR ''-'' then ([c], cs) else ([], s))"

definition integer_part :: "string \<Rightarrow> (string \<times> string) option" where
  "integer_part s =
     (case s of
        [] \<Rightarrow> None
      | c # cs \<Rightarrow>
          if \<not> digit c then None
          else if c = CHR ''0'' then Some ([c], cs)
          else Some (c # takeWhile digit cs, dropWhile digit cs))"

definition frac_part :: "string \<Rightarrow> string \<times> string" where
  "frac_part s =
     (if 2 \<le> length s \<and> hd s = CHR ''.'' \<and> digit (s ! 1)
      then (hd s # takeWhile digit (tl s), dropWhile digit (tl s))
      else ([], s))"

definition exp_part :: "string \<Rightarrow> string \<times> string" where
  "exp_part s =
     (case s of
        [] \<Rightarrow> ([], s)
      | e # es \<Rightarrow>
          if e = CHR ''e'' \<or> e = CHR ''E'' then
            let (esign, ds) = (case es of
                                 [] \<Rightarrow> ([], es)
                               | g # gs \<Rightarrow> if g = CHR ''-'' \<or> g = CHR ''+'' then ([g], gs)
                                           else ([], es))
            in if takeWhile digit ds = [] then ([], s)
               else (e # esign @ takeWhile digit ds, dropWhile digit ds)
          else ([], s))"

definition match_number :: "string \<Rightarrow> (json \<times> string) option" where
  "match_number s =
     (let (sign, s1) = sign_part s in
      case integer_part s1 of
        None \<Rightarrow> None
      | Some (integer, s2) \<Rightarrow>
          let (frac, s3) = frac_part s2;
              (exp, s4) = exp_part s3
          in if frac = [] \<and> exp = []
             then Some (JInt (if sign = [] then int_of_digits integer
                              else - int_of_digits integer), s4)
             else Some (JFloat (sign @ integer @ frac @ exp), s4))"

text \<open>The values that are neither string nor object nor array: the constants and numbers.\<close>

definition after_prefix :: "string \<Rightarrow> string \<Rightarrow> string option" where
  "after_prefix p s = (if take (length p) s = p then Some (drop (length p) s) else None)"

definition scan_constant :: "string \<Rightarrow> (json \<times> string) option" where
  "scan_constant s =
     (case after_prefix ''null'' s of Some rest \<Rightarrow> Some (JNull, rest) | None \<Rightarrow>
      case after_prefix ''true'' s of Some rest \<Rightarrow> Some (JBool True, rest) | None \<Rightarrow>
      case after_prefix ''false'' s of Some rest \<Rightarrow> Some (JBool False, rest) | None \<Rightarrow>
      case after_prefix ''NaN'' s of Some rest \<Rightarrow> Some (JFloat ''NaN'', rest) | None \<Rightarrow>
      case after_prefix ''Infinity'' s of Some rest \<Rightarrow> Some (JFloat ''Infinity'', rest) | None \<Rightarrow>
      case after_prefix ''-Infinity'' s of Some rest \<Rightarrow> Some (JFloat ''-Infinity'', rest) | None \<Rightarrow>
      match_number s)"

text \<open>
  \<open>scan_once\<close> reads one value at the start of the text and returns it with the text
  left; \<open>JSONObject\<close> reads the pairs of an object from the character after the opening
  quote of a key, \<open>JSONArray\<close> the elements of an array from its first element. A text
  that does not go on as the grammar asks raises \<open>JSONDecodeError\<close>. The first argument
  bounds the depth of the calls: at depth 0 the model raises \<open>RecursionError\<close>.
  \<open>json_loads\<close> allows more calls than a text can use (lemma \<open>json_loads_error\<close>).
  Two limits of the interpreter are left out: its bound on nested calls, past which
  Python raises \<open>RecursionError\<close>, and, from Python 3.11 on, its bound of 4300 digits on
  an \<open>int\<close> literal, past which \<open>int()\<close> raises \<open>ValueError\<close>.
\<close>

fun scan_once :: "nat \<Rightarrow> string \<Rightarrow> error + (json \<times> string)"
  and JSONObject :: "nat \<Rightarrow> (nat list \<times> json) list \<Rightarrow> string \<Rightarrow> error + (json \<times> string)"
  and JSONArray :: "nat \<Rightarrow> json list \<Rightarrow> string \<Rightarrow> error + (json \<times> string)"
where
  "scan_once 0 s = Inl RecursionError"
| "scan_once (Suc n) s =
     (case s of
        [] \<Rightarrow> Inl JSONDecodeError
      | c # cs \<Rightarrow>
          if c = CHR 0x22 then
            (case scanstring cs of
               Inl e \<Rightarrow> Inl e
             | Inr (content, rest) \<Rightarrow> Inr (JString content, rest))
          else if c = CHR ''{'' then
            (case skip_whitespace cs of
               [] \<Rightarrow> Inl JSONDecodeError
             | d # ds \<Rightarrow>
                 if d = CHR ''}'' then Inr (JObject [], ds)
                 else if d = CHR 0x22 then JSONObject n [] ds
                 else Inl JSONDecodeError)
          else if c = CHR ''['' then
            (case skip_whitespace cs of
               [] \<Rightarrow> Inl JSONDecodeError
             | d # ds \<Rightarrow>
                 if d = CHR '']'' then Inr (JArray [], ds)
                 else JSONArray n [] (d # ds))
          else
            (case scan_constant s of None \<Rightarrow> Inl JSONDecodeError | Some res \<Rightarrow> Inr res))"
| "JSONObject 0 pairs s = Inl RecursionError"
| "JSONObject (Suc n) pairs s =
     (case scanstring s of
        Inl e \<Rightarrow> Inl e
      | Inr (key, s1) \<Rightarrow>
          (case skip_whitespace s1 of
             [] \<Rightarrow> Inl JSONDecodeError
           | c # s2 \<Rightarrow>
               if c \<noteq> CHR '':'' then Inl JSONDecodeError
               else
                 (case scan_once n (skip_whitespace s2) of
                    Inl e \<Rightarrow> Inl e
                  | Inr (v, s3) \<Rightarrow>
                      (case skip_whitespace s3 of
                         [] \<Rightarrow> Inl JSONDecodeError
                       | d # s4 \<Rightarrow>
                           if d = CHR ''}'' then Inr (JObject (pairs @ [(key, v)]), s4)
                           else if d \<noteq> CHR '','' then Inl JSONDecodeError
                           else
                             (case skip_whitespace s4 of
                                [] \<Rightarrow> Inl JSONDecodeError
                              | q # s5 \<Rightarrow>
                                  if q = CHR 0x22 then JSONObject n (pairs @ [(key, v)]) s5
                                  else Inl JSONDecodeError)))))"
| "JSONArray 0 vs s = Inl RecursionError"
| "JSONArray (Suc n) vs s =
     (case scan_once n s of
        Inl e \<Rightarrow> Inl e
      | Inr (v, s1) \<Rightarrow>
          (case skip_whitespace s1 of
             [] \<Rightarrow> Inl JSONDecodeError
           | d # s2 \<Rightarrow>
               if d = CHR '']'' then Inr (JArray (vs @ [v]), s2)
               else if d \<noteq> CHR '','' then Inl JSONDecodeError
               else JSONArray n (vs @ [v]) (skip_whitespace s2)))"

text \<open>
  \<open>json.loads\<close>: one value between optional whitespace; anything after it is the error
  \<open>Extra data\<close>.
\<close>

definition json_loads :: "string \<Rightarrow> error + json" where
  "json_loads s =
     (case scan_once (Suc (2 * length s)) (skip_whitespace s) of
        Inl e \<Rightarrow> Inl e
      | Inr (v, rest) \<Rightarrow> if skip_whitespace rest = [] then Inr v else Inl JSONDecodeError)"

text \<open>
  The line \<open>response = json.loads(regex.search(pattern, raw_response).group())\<close>.
\<close>

definition extract_json :: "string \<Rightarrow> error + json" where
  "extract_json response_str = bind_res (search_group response_str) json_loads"

text \<open>The code points of a text.\<close>

definition code_points :: "string \<Rightarrow> nat list" where
  "code_points s = map of_char s"

section \<open>Example inputs\<close>

text \<open>The scenario of the specification: two rooms, one connection, one front door.\<close>

definition scenario :: response where
  "scenario = \<lparr> complete_room_list = [''kitchen1'', ''bedroom1''],
                modified_room_list = [''kitchen1'', ''bedroom1''],
                connection = [(''kitchen1'', ''bedroom1'')],
                front_door = [''kitchen1''] \<rparr>"

text \<open>The scenario with its connection declared a second time, the other way round.\<close>

definition scenario_twice :: response where
  "scenario_twice = scenario \<lparr> connection := [(''kitchen1'', ''bedroom1''), (''bedroom1'', ''kitchen1'')] \<rparr>"

text \<open>A house of six rooms with ten connections.\<close>

definition ten_connections :: response where
  "ten_connections = \<lparr>
      complete_room_list = [''living_room1'', ''kitchen1'', ''bedroom1'', ''bedroom2'',
                            ''bathroom1'', ''dining_room1''],
      modified_room_list = [''living_room1'', ''kitchen1'', ''bedroom1'', ''bedroom2'',
                            ''bathroom1'', ''dining_room1''],
      connection = [(''living_room1'', ''kitchen1''), (''living_room1'', ''bedroom1''),
                    (''living_room1'', ''bedroom2''), (''living_room1'', ''bathroom1''),
                    (''living_room1'', ''dining_room1''), (''kitchen1'', ''dining_room1''),
                    (''bedroom1'', ''bathroom1''), (''bedroom2'', ''bathroom1''),
                    (''bedroom1'', ''bedroom2''), (''kitchen1'', ''bathroom1'')],
      front_door = [''living_room1''] \<rparr>"


text \<open>A connection to a room that is not in the room list.\<close>

definition dangling :: response where
  "dangling = scenario \<lparr> connection := [(''kitchen1'', ''garage1'')] \<rparr>"

text \<open>The scenario, its response lacking the key \<open>front_door\<close>.\<close>

definition no_front_door_key :: response_dict where
  "no_front_door_key = (response_items scenario) \<lparr> front_door_item := None \<rparr>"

text \<open>The scenario, its front door at a room called \<open>front_door\<close> that is in no room list.\<close>

definition door_named_front_door :: response where
  "door_named_front_door = scenario \<lparr> front_door := [''front_door''] \<rparr>"

text \<open>The scenario as the language model writes it, and a response that wraps it in prose.\<close>

definition scenario_json :: string where
  \<open>scenario_json = ''{"complete_room_list": ["kitchen1", "bedroom1"], "modified_room_list": ["kitchen1", "bedroom1"], "connection": [["kitchen1", "bedroom1"]], "front_door": ["kitchen1"]}''\<close>

definition scenario_reply :: string where
  "scenario_reply = ''Here is the plan: '' @ scenario_json @ '' Enjoy!''"

definition scenario_decoded :: json where
  "scenario_decoded = JObject
     [(code_points ''complete_room_list'',
         JArray [JString (code_points ''kitchen1''), JString (code_points ''bedroom1'')]),
      (code_points ''modified_room_list'',
         JArray [JString (code_points ''kitchen1''), JString (code_points ''bedroom1'')]),
      (code_points ''connection'',
         JArray [JArray [JString (code_points ''kitchen1''), JString (code_points ''bedroom1'')]]),
      (code_points ''front_door'', JArray [JString (code_points ''kitchen1'')])]"

text \<open>A response with two objects, and one whose single object is not JSON.\<close>

definition two_plans :: string where
  \<open>two_plans = ''Plan A: {"a": 1} or plan B: {"b": 2}.''\<close>

definition unquoted_key :: string where
  "unquoted_key = ''The plan: {a: 1}''"

text \<open>
  The graph of the scenario as \<open>generate_layout_masks\<close> receives it: the one-hot rows of
  the type codes 2 (kitchen), 3 (bedroom), 17 (interior door) and 15 (front door), and
  the sorted edge triples.
\<close>

definition scenario_nodes :: "int list list" where
  "scenario_nodes = one_hot_nodes 18 [2, 3, 17, 15]"

definition scenario_edges :: "triple list" where
  "scenario_edges = [(0, 1, 1), (0, 1, 2), (0, 1, 3), (1, 1, 2), (1, -1, 3), (2, -1, 3)]"

text \<open>Every triple carries polarity \<open>+1\<close> or \<open>-1\<close>.\<close>

definition all_signed :: "triple list \<Rightarrow> bool" where
  "all_signed ts = (\<forall>t \<in> set ts. fst (snd t) = 1 \<or> fst (snd t) = -1)"

text \<open>
  The indexed connection list in which entry \<open>k\<close> joins the nodes \<open>A k\<close> and \<open>B k\<close> through
  the door node \<open>m + k\<close>; entry \<open>k\<close> joins \<open>i\<close> and \<open>j\<close>; it is the first entry to do so.
\<close>

definition door_connection ::
  "(nat \<Rightarrow> nat) \<Rightarrow> (nat \<Rightarrow> nat) \<Rightarrow> nat \<Rightarrow> nat \<Rightarrow> (nat \<times> nat \<times> nat) list" where
  "door_connection A B m nc = map (\<lambda>k. (A k, m + k, B k)) [0..<nc]"

definition joins :: "(nat \<Rightarrow> nat) \<Rightarrow> (nat \<Rightarrow> nat) \<Rightarrow> nat \<Rightarrow> nat \<Rightarrow> nat \<Rightarrow> bool" where
  "joins A B i j k = ((A k = i \<and> B k = j) \<or> (A k = j \<and> B k = i))"

definition first_join ::
  "(nat \<Rightarrow> nat) \<Rightarrow> (nat \<Rightarrow> nat) \<Rightarrow> nat \<Rightarrow> nat \<Rightarrow> nat \<Rightarrow> nat \<Rightarrow> bool" where
  "first_join A B nc i j k = (k < nc \<and> joins A B i j k \<and> (\<forall>k' < k. \<not> joins A B i j k'))"

section \<open>Properties: exceptions, names and the index pairs\<close>

lemma bind_res_simps [simp]:
  "bind_res (Inl e) f = Inl e" "bind_res (Inr x) f = f x"
  by (simp_all add: bind_res_def)

lemma bind_res_eq_Inr: "bind_res m f = Inr y \<longleftrightarrow> (\<exists>x. m = Inr x \<and> f x = Inr y)"
  by (cases m) simp_all

lemma str_nonempty: "str n \<noteq> []"
  by (subst str.simps) simp

lemma butlast_str: "butlast (str n) = (if n < 10 then [] else str (n div 10))"
  by (subst str.simps) (simp add: butlast_append)

lemma in_index_pairs [simp]: "(i, j) \<in> set (index_pairs n) \<longleftrightarrow> i < j \<and> j < n"
  unfolding index_pairs_def by (auto simp: image_iff)

lemma sorted_wrt_concat_map:
  assumes "\<And>x. x \<in> set xs \<Longrightarrow> sorted_wrt R (f x)"
    and "sorted_wrt (\<lambda>x y. \<forall>a \<in> set (f x). \<forall>b \<in> set (f y). R a b) xs"
  shows "sorted_wrt R (concat (map f xs))"
  using assms by (induction xs) (auto simp: sorted_wrt_append)

lemma strict_sorted_index_pairs: "sorted_wrt (<) (index_pairs n)"
  unfolding index_pairs_def
proof (rule sorted_wrt_concat_map)
  fix i
  have "sorted_wrt (<) (filter (\<lambda>j. i < j) [0..<n])"
    by (rule sorted_wrt_filter) simp
  then show "sorted_wrt (<) (map (Pair i) (filter (\<lambda>j. i < j) [0..<n]))"
    by (simp add: sorted_wrt_map)
next
  have "sorted_wrt (<) [0..<n]" by simp
  then show "sorted_wrt (\<lambda>x y. \<forall>a\<in>set (map (Pair x) (filter (\<lambda>j. x < j) [0..<n])).
      \<forall>b\<in>set (map (Pair y) (filter (\<lambda>j. y < j) [0..<n])). a < b) [0..<n]"
    by (rule sorted_wrt_mono_rel [rotated]) auto
qed

lemma sorted_index_pairs: "sorted (index_pairs n)"
  using strict_sorted_index_pairs [of n] by (simp add: strict_sorted_iff)

lemma distinct_index_pairs: "distinct (index_pairs n)"
  using strict_sorted_index_pairs [of n] by (simp add: strict_sorted_iff)

lemma length_index_pairs: "length (index_pairs n) = n * (n - 1) div 2"
proof -
  have "length (index_pairs n) = (\<Sum>i<n. length (filter (\<lambda>j. i < j) [0..<n]))"
    by (simp add: index_pairs_def length_concat comp_def interv_sum_list_conv_sum_set_nat
        atLeast0LessThan)
  also have "\<dots> = (\<Sum>i<n. n - Suc i)"
  proof (rule sum.cong)
    fix i assume "i \<in> {..<n}"
    have "filter (\<lambda>j. i < j) [0..<n] = [Suc i..<n]"
      by (rule sorted_distinct_set_unique) (auto simp: sorted_wrt_filter)
    then show "length (filter (\<lambda>j. i < j) [0..<n]) = n - Suc i" by simp
  qed simp
  also have "\<dots> = (\<Sum>i<n. i)"
    by (rule sum.nat_diff_reindex)
  also have "\<dots> = n * (n - 1) div 2"
    by (cases n) (simp_all add: lessThan_Suc_atMost gauss_sum_nat atMost_atLeast0)
  finally show ?thesis .
qed

section \<open>Type codes of the door nodes\<close>

lemma type_list_interior: "type_list (''interior_door'' @ s) = (if s = [] then Some 17 else None)"
  by (simp add: type_list_def py_dict_def)

lemma type_list_front: "type_list (''front_door'' @ s) = (if s = [] then Some 15 else None)"
  by (simp add: type_list_def py_dict_def)

lemma type_list_unknown: "type_list ''unknown'' = Some 16"
  by (simp add: type_list_def py_dict_def)

text \<open>
  \<open>room[:-1]\<close> drops one character. The name of a door numbered below ten loses its
  number and is found in the registry; from the tenth door on, a digit stays behind and
  the lookup falls through to the \<open>unknown\<close> code.
\<close>

lemma type_code_interior_door:
  "type_code (''interior_door'' @ str i) = (if i < 10 then 17 else 16)"
proof -
  have "butlast (''interior_door'' @ str i) = ''interior_door'' @ butlast (str i)"
    using str_nonempty [of i] by (simp add: butlast_append)
  then show ?thesis
    using str_nonempty [of "i div 10"]
    by (simp add: type_code_def type_list_interior type_list_unknown butlast_str del: append.simps)
qed

lemma type_code_front_door:
  "type_code (''front_door'' @ str i) = (if i < 10 then 15 else 16)"
proof -
  have "butlast (''front_door'' @ str i) = ''front_door'' @ butlast (str i)"
    using str_nonempty [of i] by (simp add: butlast_append)
  then show ?thesis
    using str_nonempty [of "i div 10"]
    by (simp add: type_code_def type_list_front type_list_unknown butlast_str del: append.simps)
qed

lemma type_code_unmatched: "type_list (butlast room) = None \<Longrightarrow> type_code room = 16"
  by (simp add: type_code_def type_list_unknown)

text \<open>
  Claim C8: every synthesized interior-door node receives the type code 17 and every
  front-door node the code 15, for every number of connections and front doors;
  unmatched names receive the code 16. On the house with ten connections the code
  gives the node \<open>interior_door10\<close> the code 16 of an unknown room: the claim holds for
  the first nine doors of each kind only (\<open>type_code_interior_door\<close>,
  \<open>type_code_front_door\<close>).
\<close>

theorem tenth_interior_door_gets_unknown_code:
  "map_sum id room_names (generate_bubble_diagram ten_connections) =
     Inr [''living_room1'', ''kitchen1'', ''bedroom1'', ''bedroom2'', ''bathroom1'',
          ''dining_room1'', ''interior_door1'', ''interior_door2'', ''interior_door3'',
          ''interior_door4'', ''interior_door5'', ''interior_door6'', ''interior_door7'',
          ''interior_door8'', ''interior_door9'', ''interior_door10'', ''front_door1'']
   \<and> map_sum id node_codes (generate_bubble_diagram ten_connections) =
     Inr [1, 2, 3, 3, 4, 7, 17, 17, 17, 17, 17, 17, 17, 17, 17, 16, 15]"
  by code_simp

section \<open>The compiled graph is a complete signed graph\<close>

lemma fold_res_invariant:
  assumes "\<And>x s s'. x \<in> set xs \<Longrightarrow> f x s = Inr s' \<Longrightarrow> P s \<Longrightarrow> P s'"
    and "fold_res f xs s = Inr s'" and "P s"
  shows "P s'"
  using assms
proof (induction xs arbitrary: s)
  case Nil
  then show ?case by simp
next
  case (Cons x xs)
  from Cons.prems(2) obtain s1 where s1: "f x s = Inr s1" "fold_res f xs s1 = Inr s'"
    by (auto simp: bind_res_eq_Inr)
  have "P s1" using Cons.prems(1) [of x s s1] s1(1) Cons.prems(3) by simp
  show ?case
  proof (rule Cons.IH [OF _ s1(2) \<open>P s1\<close>])
    fix y t t'
    assume "y \<in> set xs" "f y t = Inr t'" "P t"
    then show "P t'" using Cons.prems(1) [of y t t'] by simp
  qed
qed

lemma list_remove_Inr:
  "list_remove x ts = Inr ts' \<longleftrightarrow> x \<in> set ts \<and> ts' = remove1 x ts"
  by (auto simp: list_remove_def)

lemma keys_remove1:
  assumes "x \<in> set ts"
  shows "mset (map triple_key (remove1 x ts)) + {#triple_key x#} = mset (map triple_key ts)"
proof -
  have "mset (map triple_key (remove1 x ts)) = image_mset triple_key (mset ts - {#x#})"
    by simp
  also have "\<dots> = image_mset triple_key (mset ts) - {#triple_key x#}"
    using assms by (simp add: image_mset_Diff)
  finally show ?thesis using assms by simp
qed

lemma triple_key_simp [simp]: "triple_key (i, s, j) = (i, j)"
  by (simp add: triple_key_def)

lemma all_signed_remove1: "all_signed ts \<Longrightarrow> all_signed (remove1 x ts)"
  by (auto simp: all_signed_def dest: notin_set_remove1)

lemma adjacency_step_keys:
  assumes "adjacency_step conn p ts = Inr ts'"
  shows "mset (map triple_key ts') = mset (map triple_key ts) \<and> (all_signed ts \<longrightarrow> all_signed ts')"
proof (cases p)
  case (Pair i j)
  show ?thesis
  proof (cases "is_adjacent conn i j")
    case False
    with assms Pair show ?thesis by (simp add: adjacency_step_def)
  next
    case True
    with assms Pair obtain d rest t1 t2 t3 where
      e: "edge_of conn i j = d # rest"
      and r1: "list_remove (i, -1, d) ts = Inr t1"
      and r2: "list_remove (j, -1, d) t1 = Inr t2"
      and r3: "list_remove (i, -1, j) t2 = Inr t3"
      and res: "ts' = t3 @ [(i, 1, d), (j, 1, d), (i, 1, j)]"
      by (auto simp: adjacency_step_def bind_res_eq_Inr split: list.splits)
    have k1: "mset (map triple_key t1) + {#(i, d)#} = mset (map triple_key ts)"
      using r1 keys_remove1 [of "(i, -1, d)" ts] by (simp add: list_remove_Inr)
    have k2: "mset (map triple_key t2) + {#(j, d)#} = mset (map triple_key t1)"
      using r2 keys_remove1 [of "(j, -1, d)" t1] by (simp add: list_remove_Inr)
    have k3: "mset (map triple_key t3) + {#(i, j)#} = mset (map triple_key t2)"
      using r3 keys_remove1 [of "(i, -1, j)" t2] by (simp add: list_remove_Inr)
    have keys: "mset (map triple_key ts') = mset (map triple_key ts)"
      unfolding res k1 [symmetric] k2 [symmetric] k3 [symmetric] by simp
    have "all_signed ts \<Longrightarrow> all_signed ts'"
    proof -
      assume "all_signed ts"
      then have "all_signed t3"
        using r1 r2 r3 by (auto simp: list_remove_Inr intro: all_signed_remove1)
      then show "all_signed ts'" by (auto simp: res all_signed_def)
    qed
    with keys show ?thesis by simp
  qed
qed

lemma front_door_step_keys:
  assumes "front_door_step rd p ts = Inr ts'"
  shows "mset (map triple_key ts') = mset (map triple_key ts) \<and> (all_signed ts \<longrightarrow> all_signed ts')"
proof (cases p)
  case (Pair i room)
  with assms obtain ir f t1 where
    g1: "getitem rd room = Inr ir" and g2: "getitem rd (''front_door'' @ str i) = Inr f"
    and r1: "list_remove (ir, -1, f) ts = Inr t1" and res: "ts' = t1 @ [(ir, 1, f)]"
    by (auto simp: front_door_step_def bind_res_eq_Inr)
  have k1: "mset (map triple_key t1) + {#(ir, f)#} = mset (map triple_key ts)"
    using r1 keys_remove1 [of "(ir, -1, f)" ts] by (simp add: list_remove_Inr)
  have keys: "mset (map triple_key ts') = mset (map triple_key ts)"
    unfolding res k1 [symmetric] by simp
  have "all_signed ts \<Longrightarrow> all_signed ts'"
    using r1 by (auto simp: res list_remove_Inr all_signed_def dest: notin_set_remove1)
  with keys show ?thesis by blast
qed

lemma initial_triples_keys: "map triple_key (initial_triples n) = index_pairs n"
  by (simp add: initial_triples_def comp_def case_prod_beta triple_key_def)

lemma all_signed_initial: "all_signed (initial_triples n)"
  by (auto simp: all_signed_def initial_triples_def)

lemma organize_keys:
  assumes "mset (map triple_key ts) = mset (index_pairs n)"
  shows "map triple_key (organize ts) = index_pairs n"
proof -
  have "mset (map triple_key (organize ts)) = mset (index_pairs n)"
    using assms by (simp add: organize_def)
  moreover have "sorted (map triple_key (organize ts))"
    by (simp add: organize_def)
  ultimately have "sort (index_pairs n) = map triple_key (organize ts)"
    by (rule properties_for_sort)
  then show ?thesis by (simp add: sorted_sort_id sorted_index_pairs)
qed

lemma length_interior_door_list [simp]: "length (interior_door_list n) = n"
  by (simp add: interior_door_list_def)

lemma length_front_door_list [simp]: "length (front_door_list n) = n"
  by (simp add: front_door_list_def)

lemma length_room_list_ext: "length (room_list_ext r) = node_count r"
  by (simp add: room_list_ext_def node_count_def)

lemma generate_bubble_diagram_Inr:
  assumes "generate_bubble_diagram r = Inr g"
  obtains conn fd iconn t1 t2 where
    "raw_connection r = Inr conn" "front_door_std r = Inr fd"
    "index_connection (room_dict (room_list_ext r)) (named_connection conn) = Inr iconn"
    "adjacency_loop (real_nodes_len r) iconn (initial_triples (node_count r)) = Inr t1"
    "front_door_loop (room_dict (room_list_ext r)) fd t1 = Inr t2"
    "g = \<lparr> node_codes = room_list_indices (room_list_ext r), graph_edges = organize t2,
            name_dict = room_name_dict r, room_names = room_list_ext r \<rparr>"
  using assms
  by (auto simp: generate_bubble_diagram_def bind_res_eq_Inr Let_def length_room_list_ext)

lemma compiled_keys:
  assumes "generate_bubble_diagram r = Inr g"
  shows "map triple_key (graph_edges g) = index_pairs (node_count r) \<and> all_signed (graph_edges g)"
proof -
  from assms obtain conn fd iconn t1 t2 where
    a: "adjacency_loop (real_nodes_len r) iconn (initial_triples (node_count r)) = Inr t1"
    and f: "front_door_loop (room_dict (room_list_ext r)) fd t1 = Inr t2"
    and g: "g = \<lparr> node_codes = room_list_indices (room_list_ext r), graph_edges = organize t2,
            name_dict = room_name_dict r, room_names = room_list_ext r \<rparr>"
    by (rule generate_bubble_diagram_Inr)
  let ?P = "\<lambda>ts. mset (map triple_key ts) = mset (index_pairs (node_count r)) \<and> all_signed ts"
  have "?P (initial_triples (node_count r))"
    by (simp add: initial_triples_keys all_signed_initial)
  with a have "?P t1"
    unfolding adjacency_loop_def
    by (rule fold_res_invariant [rotated]) (use adjacency_step_keys in auto)
  with f have "?P t2"
    unfolding front_door_loop_def
    by (rule fold_res_invariant [rotated]) (use front_door_step_keys in auto)
  then show ?thesis
    by (simp add: g organize_keys) (simp add: all_signed_def organize_def)
qed

lemma scenario_succeeds: "\<not> isl (generate_bubble_diagram scenario)"
  by code_simp

lemma not_isl_Inr: "\<not> isl x \<Longrightarrow> \<exists>y. x = Inr y"
  by (cases x) simp_all

text \<open>
  Claim C2: whenever \<open>generate_bubble_diagram\<close> succeeds, the returned list holds exactly
  one triple \<open>(i, s, j)\<close>, \<open>i < j\<close>, \<open>s\<close> one of \<open>-1\<close> and \<open>+1\<close>, for every unordered pair
  of node indices, where the node count is
  \<open>len(modified_room_list) + len(connection) + len(front_door)\<close>; the list has
  \<open>n * (n - 1) / 2\<close> triples. The keys \<open>(i, j)\<close> of the returned list are, in order, the
  index pairs themselves.
\<close>

theorem complete_signed_graph:
  assumes "generate_bubble_diagram r = Inr g"
  shows "map triple_key (graph_edges g) = index_pairs (node_count r)
       \<and> all_signed (graph_edges g)
       \<and> distinct (graph_edges g)
       \<and> length (graph_edges g) = node_count r * (node_count r - 1) div 2
       \<and> length (node_codes g) = node_count r
       \<and> (\<forall>i j. i < j \<and> j < node_count r \<longrightarrow> (\<exists>!s. (i, s, j) \<in> set (graph_edges g)))
       \<and> (\<forall>i s j. (i, s, j) \<in> set (graph_edges g) \<longrightarrow> i < j \<and> j < node_count r \<and> (s = 1 \<or> s = -1))"
proof -
  let ?es = "graph_edges g" and ?n = "node_count r"
  have keys: "map triple_key ?es = index_pairs ?n" and pol: "all_signed ?es"
    using compiled_keys [OF assms] by simp_all
  have dk: "distinct (map triple_key ?es)"
    by (simp add: keys distinct_index_pairs)
  then have d: "distinct ?es"
    by (rule distinct_map [THEN iffD1, THEN conjunct1])
  have len: "length ?es = ?n * (?n - 1) div 2"
    using arg_cong [OF keys, of length] by (simp add: length_index_pairs)
  have codes: "length (node_codes g) = ?n"
    using assms by (rule generate_bubble_diagram_Inr) (simp add: room_list_indices_def length_room_list_ext)
  have mem: "(i, j) \<in> set (index_pairs ?n) \<longleftrightarrow> (\<exists>s. (i, s, j) \<in> set ?es)" for i j
  proof -
    have "set (index_pairs ?n) = triple_key ` set ?es"
      using arg_cong [OF keys, of set] by simp
    then show ?thesis by (force simp: triple_key_def image_iff split: prod.splits)
  qed
  have uniq: "s = s'" if "(i, s, j) \<in> set ?es" "(i, s', j) \<in> set ?es" for i s s' j
  proof -
    have "inj_on triple_key (set ?es)"
      using dk by (simp add: distinct_map)
    then have "(i, s, j) = (i, s', j)"
      by (rule inj_onD) (use that in simp_all)
    then show ?thesis by simp
  qed
  have one: "\<forall>i j. i < j \<and> j < ?n \<longrightarrow> (\<exists>!s. (i, s, j) \<in> set ?es)"
    using mem uniq by (metis in_index_pairs)
  have form: "\<forall>i s j. (i, s, j) \<in> set ?es \<longrightarrow> i < j \<and> j < ?n \<and> (s = 1 \<or> s = -1)"
  proof (intro allI impI)
    fix i s j assume t: "(i, s, j) \<in> set ?es"
    then have "(i, j) \<in> set (index_pairs ?n)" using mem by blast
    moreover have "s = 1 \<or> s = -1" using pol t by (force simp: all_signed_def)
    ultimately show "i < j \<and> j < ?n \<and> (s = 1 \<or> s = -1)" by simp
  qed
  from keys pol d len codes one form show ?thesis by blast
qed

theorem complete_signed_graph_witness:
  "\<exists>g. generate_bubble_diagram scenario = Inr g
     \<and> map triple_key (graph_edges g) = [(0, 1), (0, 2), (0, 3), (1, 2), (1, 3), (2, 3)]
     \<and> length (graph_edges g) = 6 \<and> length (node_codes g) = 4"
proof -
  obtain g where g: "generate_bubble_diagram scenario = Inr g"
    using not_isl_Inr [OF scenario_succeeds] by blast
  have n: "node_count scenario = 4"
    by (simp add: node_count_def scenario_def)
  have "index_pairs 4 = [(0, 1), (0, 2), (0, 3), (1, 2), (1, 3), (2, 3)]"
    by code_simp
  with complete_signed_graph [OF g] n g show ?thesis
    by simp
qed

section \<open>The freeze schedule of the refinement loop\<close>

lemma set_fixed_nodes_of:
  "set (fixed_nodes_of rn types) = {p. p < length rn \<and> rn ! p \<in> set types}"
  by (auto simp: fixed_nodes_of_def)

lemma sorted_types_props:
  "sorted_wrt (<) (sorted_types rn)" "set (sorted_types rn) = set rn" "distinct (sorted_types rn)"
  by (simp_all add: sorted_types_def strict_sorted_iff)

lemma length_selected_types [simp]: "length (selected_types rn) = 10"
  by (simp add: selected_types_def)

lemma nth_selected_types: "k < 10 \<Longrightarrow> selected_types rn ! k = take (Suc k) (sorted_types rn)"
  by (simp add: selected_types_def)

lemma refine_round_pair:
  "refine_round infer g rn ts (ms, calls) =
     (infer g \<lparr> masks = Some ms, fixed_nodes = fixed_nodes_of rn ts \<rparr>,
      calls @ [\<lparr> masks = Some ms, fixed_nodes = fixed_nodes_of rn ts \<rparr>])"
  by (simp add: refine_round_def Let_def)

lemma refine_rounds_calls:
  "snd (fold (refine_round infer g rn) tss (ms, calls)) =
     calls @ map (\<lambda>i. \<lparr> masks = Some (fst (fold (refine_round infer g rn) (take i tss) (ms, calls))),
                          fixed_nodes = fixed_nodes_of rn (tss ! i) \<rparr>) [0..<length tss]"
proof (induction tss arbitrary: ms calls)
  case Nil
  then show ?case by simp
next
  case (Cons ts tss)
  have upt: "[0..<length (ts # tss)] = 0 # map Suc [0..<length tss]"
    by (simp add: upt_conv_Cons map_Suc_upt del: upt_Suc)
  show ?case
    unfolding upt
    by (simp add: refine_round_pair Cons.IH comp_def del: upt_Suc)
qed

lemma refine_rounds_masks:
  "fst (fold (refine_round infer g rn) tss (ms, calls)) =
     (if tss = [] then ms
      else infer g (last (snd (fold (refine_round infer g rn) tss (ms, calls)))))"
proof (induction tss arbitrary: ms calls rule: rev_induct)
  case Nil
  then show ?case by simp
next
  case (snoc ts tss)
  obtain ms' calls' where acc: "fold (refine_round infer g rn) tss (ms, calls) = (ms', calls')"
    by (cases "fold (refine_round infer g rn) tss (ms, calls)")
  show ?case
    by (simp add: acc refine_round_pair)
qed

lemma fixed_schedule_eq:
  "fixed_schedule infer nodes edges =
     [] # map (fixed_nodes_of (np_where_last nodes)) (selected_types (np_where_last nodes))"
  by (simp add: fixed_schedule_def generate_layout_masks_def Let_def refine_rounds_calls comp_def
      map_nth del: upt_Suc)
     (simp add: list_eq_iff_nth_eq)

lemma calls_length:
  "length (snd (generate_layout_masks infer nodes edges)) = 11"
  by (simp add: generate_layout_masks_def Let_def refine_rounds_calls)

lemma first_call:
  "snd (generate_layout_masks infer nodes edges) ! 0 = \<lparr> masks = None, fixed_nodes = [] \<rparr>"
  by (simp add: generate_layout_masks_def Let_def refine_rounds_calls del: upt_Suc)

lemma scenario_compiles:
  "map_sum id node_codes (generate_bubble_diagram scenario) = Inr [2, 3, 17, 15]
   \<and> map_sum id graph_edges (generate_bubble_diagram scenario) = Inr scenario_edges"
  by code_simp

lemma one_hot_row_where:
  assumes "1 \<le> code" "code < w"
  shows "filter (\<lambda>c. drop 1 (map (\<lambda>c. if c = code then 1 else (0::int)) [0..<w]) ! c = 1)
           [0..<length (drop 1 (map (\<lambda>c. if c = code then 1 else (0::int)) [0..<w]))] = [code - 1]"
proof -
  have "filter (\<lambda>c. drop 1 (map (\<lambda>c. if c = code then 1 else (0::int)) [0..<w]) ! c = 1) [0..<w - 1]
      = filter (\<lambda>c. c = code - 1) [0..<w - 1]"
    using assms by (intro filter_cong) auto
  also have "\<dots> = [code - 1]"
    by (rule sorted_distinct_set_unique) (use assms in \<open>auto simp: sorted_wrt_filter\<close>)
  finally show ?thesis by simp
qed

lemma np_where_last_one_hot:
  assumes "\<forall>c \<in> set codes. 1 \<le> c \<and> c < w"
  shows "np_where_last (one_hot_nodes w codes) = map (\<lambda>c. c - 1) codes"
proof -
  have "map (\<lambda>row. filter (\<lambda>c. row ! c = 1) [0..<length row]) (one_hot_nodes w codes)
      = map (\<lambda>c. [c - 1]) codes"
    unfolding one_hot_nodes_def map_map comp_def
    by (rule map_cong [OF refl]) (use assms one_hot_row_where in blast)
  then show ?thesis
    unfolding np_where_last_def by (simp add: concat_map_singleton)
qed

lemma scenario_real_nodes: "np_where_last scenario_nodes = [1, 2, 16, 14]"
  unfolding scenario_nodes_def by (subst np_where_last_one_hot) simp_all

lemma scenario_types: "sorted_types (np_where_last scenario_nodes) = [1, 2, 14, 16]"
  by (simp add: scenario_real_nodes sorted_types_def)

text \<open>
  Claim C4, amended: \<open>generate_layout_masks\<close> calls the generator once with no prior masks
  and an empty fixed-node array and then exactly ten more times (rounds \<open>k = 0..9\<close>),
  whatever the number of distinct type codes. In round \<open>k\<close> the fixed nodes are exactly the
  positions of \<open>real_nodes\<close> (for a one-hot matrix the node indices, real rooms and door
  nodes alike, by \<open>np_where_last_one_hot\<close>) whose type column lies among the \<open>k + 1\<close>
  smallest of the ascending, duplicate-free list of all type columns: the prefix saturates
  when there are fewer than ten distinct types, and a type beyond the tenth is never fixed.
\<close>

theorem refinement_schedule:
  "length (snd (generate_layout_masks infer nodes edges)) = 11
   \<and> snd (generate_layout_masks infer nodes edges) ! 0 = \<lparr> masks = None, fixed_nodes = [] \<rparr>
   \<and> (\<forall>k<10. masks (snd (generate_layout_masks infer nodes edges) ! Suc k) \<noteq> None
          \<and> set (fixed_schedule infer nodes edges ! Suc k) =
              {p. p < length (np_where_last nodes)
                  \<and> np_where_last nodes ! p \<in> set (take (Suc k) (sorted_types (np_where_last nodes)))})
   \<and> sorted_wrt (<) (sorted_types (np_where_last nodes))
   \<and> set (sorted_types (np_where_last nodes)) = set (np_where_last nodes)"
proof -
  let ?rn = "np_where_last nodes"
  have "masks (snd (generate_layout_masks infer nodes edges) ! Suc k) \<noteq> None" if "k < 10" for k
    using that by (simp add: generate_layout_masks_def Let_def refine_rounds_calls del: upt_Suc)
  moreover have "set (fixed_schedule infer nodes edges ! Suc k) =
      {p. p < length ?rn \<and> ?rn ! p \<in> set (take (Suc k) (sorted_types ?rn))}" if "k < 10" for k
    using that by (simp add: fixed_schedule_eq nth_selected_types set_fixed_nodes_of)
  ultimately show ?thesis
    by (simp add: calls_length first_call sorted_types_props)
qed

theorem refinement_schedule_witness:
  "length (snd (generate_layout_masks blank_generator scenario_nodes scenario_edges)) = 11
   \<and> set (fixed_schedule blank_generator scenario_nodes scenario_edges ! Suc 2) =
       {p. p < length (np_where_last scenario_nodes)
           \<and> np_where_last scenario_nodes ! p
               \<in> set (take (Suc 2) (sorted_types (np_where_last scenario_nodes)))}
   \<and> np_where_last scenario_nodes = [1, 2, 16, 14]
   \<and> take (Suc 2) (sorted_types (np_where_last scenario_nodes)) = [1, 2, 14]"
proof -
  have "(2::nat) < 10" by simp
  with refinement_schedule [of blank_generator scenario_nodes scenario_edges]
  have "set (fixed_schedule blank_generator scenario_nodes scenario_edges ! Suc 2) =
      {p. p < length (np_where_last scenario_nodes)
          \<and> np_where_last scenario_nodes ! p
              \<in> set (take (Suc 2) (sorted_types (np_where_last scenario_nodes)))}"
    by blast
  moreover have "take (Suc 2) (sorted_types (np_where_last scenario_nodes)) = [1, 2, 14]"
    by (simp add: scenario_types)
  ultimately show ?thesis
    using refinement_schedule [of blank_generator scenario_nodes scenario_edges]
    by (simp add: scenario_real_nodes)
qed

lemma scenario_schedule:
  "fixed_schedule blank_generator scenario_nodes scenario_edges =
     [[], [0], [0, 1], [0, 1, 3], [0, 1, 3, 2], [0, 1, 3, 2], [0, 1, 3, 2], [0, 1, 3, 2],
      [0, 1, 3, 2], [0, 1, 3, 2], [0, 1, 3, 2]]"
  by code_simp

text \<open>
  Claim C4 as stated speaks of real-room node indices only. On the graph of the scenario
  (real rooms 0 and 1, interior door 2, front door 3) the round \<open>k = 2\<close> fixes node 3, the
  front-door node: \<open>real_nodes\<close> holds the type column of every node of the graph.
\<close>

theorem door_node_fixed_in_third_round:
  "real_nodes_len scenario = 2
   \<and> fixed_schedule blank_generator scenario_nodes scenario_edges ! 3 = [0, 1, 3]
   \<and> \<not> set (fixed_schedule blank_generator scenario_nodes scenario_edges ! 3)
          \<subseteq> {0..<real_nodes_len scenario}"
  by (simp add: scenario_schedule real_nodes_len_def scenario_def)

text \<open>
  Claim C5, amended: for every round index \<open>k\<close> from 0 to 8, the set of fixed nodes of round
  \<open>k + 1\<close> contains the set of round \<open>k\<close> (a node once fixed is never unfixed); the inclusion
  is strict exactly when \<open>k + 1\<close> is less than the number of distinct type codes of the graph.
  (Round \<open>k\<close> is call \<open>k + 1\<close>: call 0 is the initial pass.)
\<close>

theorem freeze_schedule_monotone:
  "\<forall>k<9. set (fixed_schedule infer nodes edges ! Suc k)
            \<subseteq> set (fixed_schedule infer nodes edges ! Suc (Suc k))
        \<and> (set (fixed_schedule infer nodes edges ! Suc k)
            \<subset> set (fixed_schedule infer nodes edges ! Suc (Suc k))
           \<longleftrightarrow> Suc k < length (sorted_types (np_where_last nodes)))"
proof (intro allI impI)
  fix k :: nat assume k: "k < 9"
  let ?rn = "np_where_last nodes"
  let ?T = "sorted_types ?rn"
  let ?A = "set (fixed_schedule infer nodes edges ! Suc k)"
  let ?B = "set (fixed_schedule infer nodes edges ! Suc (Suc k))"
  have A: "?A = {p. p < length ?rn \<and> ?rn ! p \<in> set (take (Suc k) ?T)}"
    using k by (simp add: fixed_schedule_eq nth_selected_types set_fixed_nodes_of)
  have B: "?B = {p. p < length ?rn \<and> ?rn ! p \<in> set (take (Suc (Suc k)) ?T)}"
    using k by (simp add: fixed_schedule_eq nth_selected_types set_fixed_nodes_of)
  have sub: "?A \<subseteq> ?B"
    unfolding A B using set_take_subset_set_take [of "Suc k" "Suc (Suc k)" ?T] by auto
  have strict: "?A \<subset> ?B" if lt: "Suc k < length ?T"
  proof -
    let ?t = "?T ! Suc k"
    have "?t \<in> set ?T" using lt by simp
    then have "?t \<in> set ?rn" by (simp add: sorted_types_props)
    then obtain p where p: "p < length ?rn" "?rn ! p = ?t"
      by (auto simp: in_set_conv_nth)
    have "?t \<in> set (take (Suc (Suc k)) ?T)"
      using lt by (auto simp: in_set_conv_nth intro!: exI [of _ "Suc k"])
    then have "p \<in> ?B" using p by (simp add: B)
    moreover have "?t \<notin> set (take (Suc k) ?T)"
    proof
      assume "?t \<in> set (take (Suc k) ?T)"
      then obtain i where i: "i < Suc k" "i < length ?T" "?T ! i = ?t"
        by (auto simp: in_set_conv_nth)
      with lt sorted_types_props(3) [of ?rn] show False
        by (auto simp: distinct_conv_nth)
    qed
    then have "p \<notin> ?A" using p by (simp add: A)
    ultimately show ?thesis using sub by blast
  qed
  have same: "?A = ?B" if "\<not> Suc k < length ?T"
    using that by (simp add: A B)
  from sub strict same
  show "?A \<subseteq> ?B \<and> (?A \<subset> ?B \<longleftrightarrow> Suc k < length ?T)"
    by blast
qed

theorem freeze_schedule_monotone_witness:
  "set (fixed_schedule blank_generator scenario_nodes scenario_edges ! Suc 0)
     \<subset> set (fixed_schedule blank_generator scenario_nodes scenario_edges ! Suc (Suc 0))
   \<and> set (fixed_schedule blank_generator scenario_nodes scenario_edges ! Suc 8)
     \<subseteq> set (fixed_schedule blank_generator scenario_nodes scenario_edges ! Suc (Suc 8))"
proof -
  have "(0::nat) < 9" "(8::nat) < 9" by simp_all
  with freeze_schedule_monotone [of blank_generator scenario_nodes scenario_edges]
  have "set (fixed_schedule blank_generator scenario_nodes scenario_edges ! Suc 0)
          \<subset> set (fixed_schedule blank_generator scenario_nodes scenario_edges ! Suc (Suc 0))
        \<longleftrightarrow> Suc 0 < length (sorted_types (np_where_last scenario_nodes))"
    and "set (fixed_schedule blank_generator scenario_nodes scenario_edges ! Suc 8)
          \<subseteq> set (fixed_schedule blank_generator scenario_nodes scenario_edges ! Suc (Suc 8))"
    by blast+
  moreover have "Suc 0 < length (sorted_types (np_where_last scenario_nodes))"
    by (simp add: scenario_types)
  ultimately show ?thesis by blast
qed

text \<open>
  Claim C5 as stated asks for a strict superset in every round. The graph of the scenario
  has four distinct type codes; rounds 8 and 9 fix the same nodes.
\<close>

theorem last_rounds_fix_nothing_new:
  "\<not> set (fixed_schedule blank_generator scenario_nodes scenario_edges ! 9)
       \<subset> set (fixed_schedule blank_generator scenario_nodes scenario_edges ! 10)"
  by (simp add: scenario_schedule)

section \<open>Dictionaries and node names\<close>

lemma py_dict_snoc:
  "py_dict (kvs @ [(k', v')]) k = (if k = k' then Some v' else py_dict kvs k)"
  by (simp add: py_dict_def)

lemma py_dict_Some_iff:
  "py_dict kvs k = Some v \<longleftrightarrow>
     (\<exists>i < length kvs. kvs ! i = (k, v) \<and> (\<forall>j. i < j \<and> j < length kvs \<longrightarrow> fst (kvs ! j) \<noteq> k))"
proof (induction kvs rule: rev_induct)
  case Nil
  then show ?case by (simp add: py_dict_def)
next
  case (snoc x kvs)
  obtain k' v' where x: "x = (k', v')" by (cases x)
  show ?case
  proof (cases "k = k'")
    case True
    have "(\<exists>i < length (kvs @ [x]). (kvs @ [x]) ! i = (k, v)
            \<and> (\<forall>j. i < j \<and> j < length (kvs @ [x]) \<longrightarrow> fst ((kvs @ [x]) ! j) \<noteq> k)) \<longleftrightarrow> v = v'"
    proof
      assume "\<exists>i < length (kvs @ [x]). (kvs @ [x]) ! i = (k, v)
            \<and> (\<forall>j. i < j \<and> j < length (kvs @ [x]) \<longrightarrow> fst ((kvs @ [x]) ! j) \<noteq> k)"
      then obtain i where i: "i < length (kvs @ [x])" "(kvs @ [x]) ! i = (k, v)"
        "\<forall>j. i < j \<and> j < length (kvs @ [x]) \<longrightarrow> fst ((kvs @ [x]) ! j) \<noteq> k" by blast
      have "i = length kvs"
      proof (rule ccontr)
        assume "i \<noteq> length kvs"
        with i(1) have "i < length kvs" by simp
        with i(3) [rule_format, of "length kvs"] have "fst x \<noteq> k" by simp
        with True x show False by simp
      qed
      with i(2) x show "v = v'" by simp
    next
      assume "v = v'"
      with True x show "\<exists>i < length (kvs @ [x]). (kvs @ [x]) ! i = (k, v)
            \<and> (\<forall>j. i < j \<and> j < length (kvs @ [x]) \<longrightarrow> fst ((kvs @ [x]) ! j) \<noteq> k)"
        by (intro exI [of _ "length kvs"]) auto
    qed
    with True x show ?thesis by (auto simp: py_dict_snoc)
  next
    case False
    have "(\<exists>i < length (kvs @ [x]). (kvs @ [x]) ! i = (k, v)
            \<and> (\<forall>j. i < j \<and> j < length (kvs @ [x]) \<longrightarrow> fst ((kvs @ [x]) ! j) \<noteq> k)) \<longleftrightarrow>
          (\<exists>i < length kvs. kvs ! i = (k, v)
            \<and> (\<forall>j. i < j \<and> j < length kvs \<longrightarrow> fst (kvs ! j) \<noteq> k))" (is "?L \<longleftrightarrow> ?R")
    proof
      assume ?L
      then obtain i where i: "i < length (kvs @ [x])" "(kvs @ [x]) ! i = (k, v)"
        "\<forall>j. i < j \<and> j < length (kvs @ [x]) \<longrightarrow> fst ((kvs @ [x]) ! j) \<noteq> k" by blast
      have lt: "i < length kvs"
      proof (rule ccontr)
        assume "\<not> i < length kvs"
        with i(1) have "i = length kvs" by simp
        with i(2) x False show False by simp
      qed
      moreover have "kvs ! i = (k, v)" using i(2) lt by (simp add: nth_append)
      moreover have "\<forall>j. i < j \<and> j < length kvs \<longrightarrow> fst (kvs ! j) \<noteq> k"
      proof (intro allI impI)
        fix j assume j: "i < j \<and> j < length kvs"
        with i(3) have "fst ((kvs @ [x]) ! j) \<noteq> k" by simp
        with j show "fst (kvs ! j) \<noteq> k" by (simp add: nth_append)
      qed
      ultimately show ?R by blast
    next
      assume ?R
      then obtain i where i: "i < length kvs" "kvs ! i = (k, v)"
        "\<forall>j. i < j \<and> j < length kvs \<longrightarrow> fst (kvs ! j) \<noteq> k" by blast
      have "\<forall>j. i < j \<and> j < length (kvs @ [x]) \<longrightarrow> fst ((kvs @ [x]) ! j) \<noteq> k"
        using i(3) x False by (auto simp: nth_append)
      with i(1,2) show ?L
        by (intro exI [of _ i]) (simp add: nth_append)
    qed
    with False x snoc.IH show ?thesis by (simp add: py_dict_snoc)
  qed
qed

lemma py_dict_None_iff: "py_dict kvs k = None \<longleftrightarrow> k \<notin> set (map fst kvs)"
  by (simp add: py_dict_def map_of_eq_None_iff)

text \<open>\<open>room_dict\<close> sends a name to the index of its last occurrence.\<close>

lemma room_dict_Some_iff:
  "room_dict rl name = Some i \<longleftrightarrow>
     i < length rl \<and> rl ! i = name \<and> (\<forall>j. i < j \<and> j < length rl \<longrightarrow> rl ! j \<noteq> name)"
  unfolding room_dict_def py_dict_Some_iff by auto

lemma room_dict_None_iff: "room_dict rl name = None \<longleftrightarrow> name \<notin> set rl"
  unfolding room_dict_def py_dict_None_iff by (simp del: set_map)

lemma room_dict_distinct:
  "distinct rl \<Longrightarrow> room_dict rl name = Some i \<longleftrightarrow> i < length rl \<and> rl ! i = name"
  unfolding room_dict_Some_iff by (auto simp: distinct_conv_nth)

lemma room_name_dict_Some_iff:
  "room_name_dict r a = Some s \<longleftrightarrow>
     (\<exists>i. i < length (complete_room_list r) \<and> i < length (modified_room_list r)
          \<and> complete_room_list r ! i = a \<and> modified_room_list r ! i = s
          \<and> (\<forall>j. i < j \<and> j < length (complete_room_list r) \<and> j < length (modified_room_list r)
                \<longrightarrow> complete_room_list r ! j \<noteq> a))"
  unfolding room_name_dict_def py_dict_Some_iff by auto

lemma room_name_dict_None_iff:
  "room_name_dict r a = None \<longleftrightarrow>
     a \<notin> set (take (length (modified_room_list r)) (complete_room_list r))"
  unfolding room_name_dict_def py_dict_None_iff map_fst_zip_take
  by (metis min.commute take_all_iff take_take linorder_le_cases)

lemma digit_below_ten: "(d::nat) < 10 \<Longrightarrow> d \<in> set [0, 1, 2, 3, 4, 5, 6, 7, 8, 9]"
  by simp arith

lemma digit_char_inj:
  assumes "d < 10" "e < 10" "digit_char d = digit_char e"
  shows "d = e"
  using digit_below_ten [OF assms(1)] digit_below_ten [OF assms(2)] assms(3)
  by (auto simp: digit_char_def)

lemma length_str_ge2: "10 \<le> n \<Longrightarrow> 2 \<le> length (str n)"
  using str_nonempty [of "n div 10"]
  by (subst str.simps) (simp add: Suc_le_eq)

lemma str_inj: "str a = str b \<Longrightarrow> a = b"
proof (induction a arbitrary: b rule: str.induct)
  case (1 a)
  show ?case
  proof (cases "a < 10")
    case a: True
    show ?thesis
    proof (cases "b < 10")
      case True
      with a "1.prems" show ?thesis
        by (simp add: str.simps [of a] str.simps [of b] digit_char_inj)
    next
      case False
      then have "2 \<le> length (str b)" by (simp add: length_str_ge2)
      moreover have "length (str a) = 1" using a by (simp add: str.simps [of a])
      ultimately show ?thesis using "1.prems" by simp
    qed
  next
    case a: False
    show ?thesis
    proof (cases "b < 10")
      case True
      then have "length (str b) = 1" by (simp add: str.simps [of b])
      moreover have "2 \<le> length (str a)" using a by (simp add: length_str_ge2)
      ultimately show ?thesis using "1.prems" by simp
    next
      case False
      with a "1.prems" have eq: "str (a div 10) = str (b div 10)"
        "digit_char (a mod 10) = digit_char (b mod 10)"
        by (simp_all add: str.simps [of a] str.simps [of b])
      from "1.IH" [OF a eq(1)] have "a div 10 = b div 10" .
      moreover have "a mod 10 = b mod 10"
        using eq(2) by (intro digit_char_inj) simp_all
      ultimately show ?thesis
        by (metis div_mult_mod_eq)
    qed
  qed
qed

lemma str_eq_iff [simp]: "str a = str b \<longleftrightarrow> a = b"
  by (auto dest: str_inj)

lemma interior_door_name_inj:
  "''interior_door'' @ str a = ''interior_door'' @ str b \<longleftrightarrow> a = b"
  by simp

lemma front_door_name_inj:
  "''front_door'' @ str a = ''front_door'' @ str b \<longleftrightarrow> a = b"
  by simp

lemma door_names_differ:
  "''interior_door'' @ s \<noteq> ''front_door'' @ t" "''front_door'' @ t \<noteq> ''interior_door'' @ s"
  by simp_all

lemma nth_interior_door_list:
  "k < n \<Longrightarrow> interior_door_list n ! k = ''interior_door'' @ str (Suc k)"
  by (simp add: interior_door_list_def del: upt_Suc)

lemma nth_front_door_list:
  "k < n \<Longrightarrow> front_door_list n ! k = ''front_door'' @ str (Suc k)"
  by (simp add: front_door_list_def del: upt_Suc)

lemma distinct_interior_door_list: "distinct (interior_door_list n)"
  by (simp add: interior_door_list_def distinct_map inj_on_def del: upt_Suc)

lemma distinct_front_door_list: "distinct (front_door_list n)"
  by (simp add: front_door_list_def distinct_map inj_on_def del: upt_Suc)

lemma set_interior_door_list:
  "set (interior_door_list n) = {''interior_door'' @ str (Suc k) | k. k < n}"
  by (auto simp: interior_door_list_def image_iff less_Suc_eq_le Suc_le_eq
      intro: exI [of _ "_ - 1"] simp del: upt_Suc) (metis Suc_pred Suc_le_eq)

lemma set_front_door_list:
  "set (front_door_list n) = {''front_door'' @ str (Suc k) | k. k < n}"
  by (auto simp: front_door_list_def image_iff less_Suc_eq_le Suc_le_eq
      intro: exI [of _ "_ - 1"] simp del: upt_Suc) (metis Suc_pred Suc_le_eq)

lemma nth_room_list_ext_room:
  "i < real_nodes_len r \<Longrightarrow> room_list_ext r ! i = modified_room_list r ! i"
  by (simp add: room_list_ext_def real_nodes_len_def nth_append)

lemma nth_room_list_ext_interior:
  "k < length (connection r) \<Longrightarrow>
     room_list_ext r ! interior_door_node r k = ''interior_door'' @ str (Suc k)"
  by (simp add: room_list_ext_def interior_door_node_def real_nodes_len_def nth_append
      nth_interior_door_list)

lemma nth_room_list_ext_front:
  "k < length (front_door r) \<Longrightarrow>
     room_list_ext r ! front_door_node r k = ''front_door'' @ str (Suc k)"
  by (simp add: room_list_ext_def front_door_node_def real_nodes_len_def nth_append
      nth_front_door_list)

text \<open>Whatever the room names are, a door name resolves to the door's own node.\<close>

lemma room_dict_interior_door:
  assumes "k < length (connection r)"
  shows "room_dict (room_list_ext r) (''interior_door'' @ str (Suc k)) = Some (interior_door_node r k)"
proof -
  let ?m = "real_nodes_len r" and ?nc = "length (connection r)" and ?nf = "length (front_door r)"
  have later: "room_list_ext r ! j \<noteq> ''interior_door'' @ str (Suc k)"
    if j: "interior_door_node r k < j" "j < length (room_list_ext r)" for j
  proof (cases "j < ?m + ?nc")
    case True
    with j have "room_list_ext r ! j = ''interior_door'' @ str (Suc (j - ?m))"
      using nth_room_list_ext_interior [of "j - ?m" r]
      by (simp add: interior_door_node_def)
    with j show ?thesis by (auto simp: interior_door_node_def)
  next
    case False
    with j have "room_list_ext r ! j = ''front_door'' @ str (Suc (j - ?m - ?nc))"
      using nth_room_list_ext_front [of "j - ?m - ?nc" r]
      by (simp add: front_door_node_def length_room_list_ext node_count_def real_nodes_len_def)
    then show ?thesis by simp
  qed
  show ?thesis
    unfolding room_dict_Some_iff
    using assms later
    by (simp add: nth_room_list_ext_interior)
       (simp add: length_room_list_ext node_count_def interior_door_node_def real_nodes_len_def)
qed

lemma room_dict_front_door:
  assumes "k < length (front_door r)"
  shows "room_dict (room_list_ext r) (''front_door'' @ str (Suc k)) = Some (front_door_node r k)"
proof -
  let ?m = "real_nodes_len r" and ?nc = "length (connection r)" and ?nf = "length (front_door r)"
  have later: "room_list_ext r ! j \<noteq> ''front_door'' @ str (Suc k)"
    if j: "front_door_node r k < j" "j < length (room_list_ext r)" for j
  proof -
    from j have "room_list_ext r ! j = ''front_door'' @ str (Suc (j - ?m - ?nc))"
      using nth_room_list_ext_front [of "j - ?m - ?nc" r]
      by (simp add: front_door_node_def length_room_list_ext node_count_def real_nodes_len_def)
    with j show ?thesis by (auto simp: front_door_node_def)
  qed
  show ?thesis
    unfolding room_dict_Some_iff
    using assms later
    by (simp add: nth_room_list_ext_front)
       (simp add: length_room_list_ext node_count_def front_door_node_def real_nodes_len_def)
qed

section \<open>Dangling references\<close>

lemma find_append_case:
  "find P (xs @ ys) = (case find P xs of None \<Rightarrow> find P ys | Some x \<Rightarrow> Some x)"
  by (induction xs) simp_all


lemma getitem_Inl_iff: "getitem d k = Inl e \<longleftrightarrow> d k = None \<and> e = KeyError k"
  by (auto simp: getitem_def split: option.splits)

lemma getitem_Some: "d k = Some v \<Longrightarrow> getitem d k = Inr v"
  by (simp add: getitem_def)

lemma getitem_None: "d k = None \<Longrightarrow> getitem d k = Inl (KeyError k)"
  by (simp add: getitem_def)


lemma fold_res_Inl:
  "fold_res f xs s = Inl e \<Longrightarrow> \<exists>x \<in> set xs. \<exists>s'. f x s' = Inl e"
proof (induction xs arbitrary: s)
  case Nil
  then show ?case by simp
next
  case (Cons x xs)
  then show ?case
    by (cases "f x s") auto
qed

text \<open>The two translations into standardized names stop at the first name without an entry.\<close>

lemma translate_pairs:
  "map_res (\<lambda>pair. bind_res (getitem d (fst pair)) (\<lambda>a.
                    bind_res (getitem d (snd pair)) (\<lambda>b. Inr (a, b)))) cs =
     (case find (\<lambda>name. d name = None) (concat (map (\<lambda>pair. [fst pair, snd pair]) cs)) of
        Some x \<Rightarrow> Inl (KeyError x)
      | None \<Rightarrow> Inr (map (\<lambda>pair. (the (d (fst pair)), the (d (snd pair)))) cs))"
proof (induction cs)
  case Nil
  then show ?case by simp
next
  case (Cons c cs)
  show ?case
    by (cases "d (fst c)"; cases "d (snd c)")
       (simp_all add: Cons.IH getitem_Some getitem_None split: option.splits)
qed

lemma translate_names:
  "map_res (getitem d) fd =
     (case find (\<lambda>name. d name = None) fd of
        Some x \<Rightarrow> Inl (KeyError x)
      | None \<Rightarrow> Inr (map (\<lambda>name. the (d name)) fd))"
proof (induction fd)
  case Nil
  then show ?case by simp
next
  case (Cons c fd)
  show ?case
    by (cases "d c") (simp_all add: Cons.IH getitem_Some getitem_None split: option.splits)
qed

lemma first_dangling_Some:
  assumes "first_dangling r = Some x"
  shows "generate_bubble_diagram r = Inl (KeyError x)"
proof (cases "find (\<lambda>name. room_name_dict r name = None)
                (concat (map (\<lambda>pair. [fst pair, snd pair]) (connection r)))")
  case None
  with assms have "find (\<lambda>name. room_name_dict r name = None) (front_door r) = Some x"
    by (simp add: first_dangling_def referenced_names_def find_append_case)
  with None show ?thesis
    by (simp add: generate_bubble_diagram_def raw_connection_def front_door_std_def
        translate_pairs translate_names)
next
  case (Some y)
  with assms have "y = x"
    by (simp add: first_dangling_def referenced_names_def find_append_case)
  with Some show ?thesis
    by (simp add: generate_bubble_diagram_def raw_connection_def translate_pairs)
qed

lemma first_dangling_None:
  assumes "first_dangling r = None"
  shows "raw_connection r =
           Inr (map (\<lambda>pair. (the (room_name_dict r (fst pair)), the (room_name_dict r (snd pair))))
                  (connection r))"
    and "front_door_std r = Inr (map (\<lambda>name. the (room_name_dict r name)) (front_door r))"
    and "\<And>name. name \<in> set (referenced_names r) \<Longrightarrow> \<exists>s. room_name_dict r name = Some s"
proof -
  from assms have n: "find (\<lambda>name. room_name_dict r name = None)
        (concat (map (\<lambda>pair. [fst pair, snd pair]) (connection r))) = None"
    "find (\<lambda>name. room_name_dict r name = None) (front_door r) = None"
    by (simp_all add: first_dangling_def referenced_names_def find_append_case split: option.splits)
  from n(1) show "raw_connection r =
           Inr (map (\<lambda>pair. (the (room_name_dict r (fst pair)), the (room_name_dict r (snd pair))))
                  (connection r))"
    by (simp add: raw_connection_def translate_pairs)
  from n(2) show "front_door_std r = Inr (map (\<lambda>name. the (room_name_dict r name)) (front_door r))"
    by (simp add: front_door_std_def translate_names)
  fix name assume "name \<in> set (referenced_names r)"
  with assms show "\<exists>s. room_name_dict r name = Some s"
    unfolding first_dangling_def find_None_iff by auto
qed

lemma room_name_dict_in_modified:
  "room_name_dict r a = Some s \<Longrightarrow> s \<in> set (modified_room_list r)"
  unfolding room_name_dict_Some_iff by auto

lemma modified_in_room_list_ext: "s \<in> set (modified_room_list r) \<Longrightarrow> s \<in> set (room_list_ext r)"
  by (simp add: room_list_ext_def)

lemma room_dict_std_name:
  "room_name_dict r a = Some s \<Longrightarrow> \<exists>i. room_dict (room_list_ext r) s = Some i"
  using room_dict_None_iff [of "room_list_ext r" s]
  by (auto dest!: room_name_dict_in_modified modified_in_room_list_ext)

lemma index_connection_succeeds:
  assumes "\<forall>c \<in> set conn. \<exists>ia. rd (fst c) = Some ia"
    and "\<forall>c \<in> set conn. \<exists>idx. rd (fst (snd c)) = Some idx"
    and "\<forall>c \<in> set conn. \<exists>ib. rd (snd (snd c)) = Some ib"
  shows "index_connection rd conn =
           Inr (map (\<lambda>c. (the (rd (fst c)), the (rd (fst (snd c))), the (rd (snd (snd c))))) conn)"
  using assms unfolding index_connection_def
proof (induction conn)
  case Nil
  then show ?case by simp
next
  case (Cons c conn)
  obtain a d b where c: "c = (a, d, b)" by (cases c)
  from Cons.prems c obtain ia idx ib where "rd a = Some ia" "rd d = Some idx" "rd b = Some ib"
    by auto
  with Cons c show ?case
    by (simp add: getitem_Some)
qed

lemma set_named_connection:
  "set (named_connection conn) =
     {(fst (conn ! k), ''interior_door'' @ str (Suc k), snd (conn ! k)) | k. k < length conn}"
proof -
  have "named_connection conn =
      map (\<lambda>k. (fst (conn ! k), ''interior_door'' @ str (Suc k), snd (conn ! k))) [0..<length conn]"
    by (rule nth_equalityI) (simp_all add: named_connection_def enumerate1_def del: upt_Suc)
  then show ?thesis by (auto simp del: upt_Suc)
qed

lemma named_connection_eq:
  "named_connection conn =
     map (\<lambda>k. (fst (conn ! k), ''interior_door'' @ str (Suc k), snd (conn ! k))) [0..<length conn]"
  by (rule nth_equalityI) (simp_all add: named_connection_def enumerate1_def del: upt_Suc)

text \<open>Without a dangling name, every later dict lookup of the compiler succeeds.\<close>

lemma index_connection_no_dangling:
  assumes "first_dangling r = None"
  shows "index_connection (room_dict (room_list_ext r))
           (named_connection (map (\<lambda>pair. (the (room_name_dict r (fst pair)),
                                            the (room_name_dict r (snd pair)))) (connection r))) =
         Inr (map (\<lambda>k. (the (node_index r (fst (connection r ! k))), interior_door_node r k,
                        the (node_index r (snd (connection r ! k))))) [0..<length (connection r)])"
proof -
  let ?rd = "room_dict (room_list_ext r)"
  let ?std = "map (\<lambda>pair. (the (room_name_dict r (fst pair)), the (room_name_dict r (snd pair))))
                (connection r)"
  have names: "\<exists>s. room_name_dict r (fst (connection r ! k)) = Some s"
    "\<exists>s. room_name_dict r (snd (connection r ! k)) = Some s" if "k < length (connection r)" for k
  proof -
    from that have "connection r ! k \<in> set (connection r)" by simp
    then have "fst (connection r ! k) \<in> set (referenced_names r)"
      "snd (connection r ! k) \<in> set (referenced_names r)"
      by (auto simp: referenced_names_def)
    then show "\<exists>s. room_name_dict r (fst (connection r ! k)) = Some s"
      "\<exists>s. room_name_dict r (snd (connection r ! k)) = Some s"
      using first_dangling_None(3) [OF assms] by blast+
  qed
  have node: "room_dict (room_list_ext r) (the (room_name_dict r x)) = node_index r x"
    if "\<exists>s. room_name_dict r x = Some s" for x
    using that by (auto simp: node_index_def)
  have some: "\<exists>i. node_index r x = Some i" if "\<exists>s. room_name_dict r x = Some s" for x
    using that room_dict_std_name [of r x] by (auto simp: node_index_def)
  have "index_connection ?rd (named_connection ?std) =
      Inr (map (\<lambda>c. (the (?rd (fst c)), the (?rd (fst (snd c))), the (?rd (snd (snd c)))))
             (named_connection ?std))"
  proof (rule index_connection_succeeds)
    show "\<forall>c\<in>set (named_connection ?std). \<exists>ia. ?rd (fst c) = Some ia"
      using names some node by (auto simp: set_named_connection)
    show "\<forall>c\<in>set (named_connection ?std). \<exists>idx. ?rd (fst (snd c)) = Some idx"
      using room_dict_interior_door [of _ r] by (auto simp: set_named_connection)
    show "\<forall>c\<in>set (named_connection ?std). \<exists>ib. ?rd (snd (snd c)) = Some ib"
      using names some node by (auto simp: set_named_connection)
  qed
  also have "map (\<lambda>c. (the (?rd (fst c)), the (?rd (fst (snd c))), the (?rd (snd (snd c)))))
             (named_connection ?std) =
      map (\<lambda>k. (the (node_index r (fst (connection r ! k))), interior_door_node r k,
                the (node_index r (snd (connection r ! k))))) [0..<length (connection r)]"
    unfolding named_connection_eq
    using names node room_dict_interior_door [of _ r]
    by (simp add: comp_def del: upt_Suc)
  finally show ?thesis .
qed

lemma adjacency_step_no_key_error: "adjacency_step conn p ts \<noteq> Inl (KeyError x)"
  by (auto simp: adjacency_step_def list_remove_def bind_res_def
      split: prod.splits list.splits if_splits sum.splits)

lemma front_door_step_no_key_error:
  assumes "rd room = Some ir" "rd (''front_door'' @ str i) = Some f"
  shows "front_door_step rd (i, room) ts \<noteq> Inl (KeyError x)"
  using assms
  by (auto simp: front_door_step_def getitem_Some list_remove_def)

lemma set_enumerate1: "set (enumerate1 xs) = {(Suc k, xs ! k) | k. k < length xs}"
proof -
  have "enumerate1 xs = map (\<lambda>k. (Suc k, xs ! k)) [0..<length xs]"
    by (rule nth_equalityI) (simp_all add: enumerate1_def del: upt_Suc)
  then show ?thesis by (auto simp del: upt_Suc)
qed

text \<open>
  On the four values of a response that has all its keys, a \<open>KeyError\<close> comes from a
  name without an entry in \<open>room_name_dict\<close> only. A missing key is another source
  (\<open>generate_bubble_diagram_dict\<close>).
\<close>

lemma key_error_only_dangling:
  assumes "generate_bubble_diagram r = Inl (KeyError x)"
  shows "first_dangling r = Some x"
proof (cases "first_dangling r")
  case (Some y)
  with assms first_dangling_Some [of r y] show ?thesis by simp
next
  case None
  let ?rd = "room_dict (room_list_ext r)"
  let ?fd = "map (\<lambda>name. the (room_name_dict r name)) (front_door r)"
  note raw = first_dangling_None(1) [OF None] and fds = first_dangling_None(2) [OF None]
    and idx = index_connection_no_dangling [OF None]
  from assms raw fds idx obtain iconn where
    loops: "bind_res (adjacency_loop (real_nodes_len r) iconn (initial_triples (length (room_list_ext r))))
       (\<lambda>t1. bind_res (front_door_loop ?rd ?fd t1) (\<lambda>t2. Inr
          \<lparr> node_codes = room_list_indices (room_list_ext r), graph_edges = organize t2,
            name_dict = room_name_dict r, room_names = room_list_ext r \<rparr>)) = Inl (KeyError x)"
    by (simp add: generate_bubble_diagram_def Let_def)
  show ?thesis
  proof (cases "adjacency_loop (real_nodes_len r) iconn (initial_triples (length (room_list_ext r)))")
    case (Inl e)
    with loops have "e = KeyError x" by simp
    with Inl show ?thesis
      unfolding adjacency_loop_def
      by (auto dest!: fold_res_Inl simp: adjacency_step_no_key_error)
  next
    case (Inr t1)
    with loops have "front_door_loop ?rd ?fd t1 = Inl (KeyError x)"
      by (cases "front_door_loop ?rd ?fd t1") simp_all
    then obtain p s' where p: "p \<in> set (enumerate1 ?fd)" "front_door_step ?rd p s' = Inl (KeyError x)"
      unfolding front_door_loop_def by (auto dest!: fold_res_Inl)
    then obtain k where k: "k < length (front_door r)" "p = (Suc k, the (room_name_dict r (front_door r ! k)))"
      by (auto simp: set_enumerate1)
    have "front_door r ! k \<in> set (referenced_names r)"
      using k(1) by (simp add: referenced_names_def)
    then obtain s where s: "room_name_dict r (front_door r ! k) = Some s"
      using first_dangling_None(3) [OF None] by blast
    then obtain ir where "?rd s = Some ir"
      using room_dict_std_name by blast
    with p(2) k s room_dict_front_door [OF k(1)] show ?thesis
      by (simp add: front_door_step_no_key_error)
  qed
qed

lemma raw_connection_cong:
  "raw_connection \<lparr> complete_room_list = complete_room_list r,
       modified_room_list = modified_room_list r, connection = connection r, front_door = fd \<rparr>
     = raw_connection r"
  by (simp add: raw_connection_def room_name_dict_def)

lemma response_rebuilt:
  "\<lparr> complete_room_list = complete_room_list r, modified_room_list = modified_room_list r,
     connection = connection r, front_door = front_door r \<rparr> = r"
  by (cases r) simp

lemma generate_bubble_diagram_response_items:
  "generate_bubble_diagram_dict (response_items r) = generate_bubble_diagram r"
proof (cases "raw_connection r")
  case (Inl e)
  then show ?thesis
    by (simp add: generate_bubble_diagram_dict_def response_items_def subscript_def
        raw_connection_cong generate_bubble_diagram_def)
next
  case (Inr conn)
  then show ?thesis
    by (simp add: generate_bubble_diagram_dict_def response_items_def subscript_def
        raw_connection_cong response_rebuilt)
qed

text \<open>
  Claim C6, amended: when some connection entry or front-door entry names a room that does
  not appear in \<open>complete_room_list\<close>, compilation returns no graph: it raises Python's
  \<open>KeyError\<close> from the lookup in \<open>room_name_dict\<close>. The error carries the first name, in
  lookup order (connection entries, then front-door entries), that has no entry in
  \<open>room_name_dict\<close>; when \<open>complete_room_list\<close> is not longer than \<open>modified_room_list\<close>
  that name is absent from \<open>complete_room_list\<close>. The error is not one of its own kind:
  a response that lacks a key raises a \<open>KeyError\<close> as well.
\<close>

theorem dangling_reference_raises_key_error:
  assumes "name \<in> set (referenced_names r)" and "name \<notin> set (complete_room_list r)"
  shows "\<exists>x \<in> set (referenced_names r).
           first_dangling r = Some x \<and> room_name_dict r x = None
           \<and> generate_bubble_diagram_dict (response_items r) = Inl (KeyError x)
           \<and> (length (complete_room_list r) \<le> length (modified_room_list r)
                \<longrightarrow> x \<notin> set (complete_room_list r))"
proof -
  have "room_name_dict r name = None"
    using assms(2) unfolding room_name_dict_None_iff by (auto dest: in_set_takeD)
  with assms(1) obtain x where x: "first_dangling r = Some x"
    unfolding first_dangling_def by (cases "find (\<lambda>name. room_name_dict r name = None) (referenced_names r)")
      (auto simp: find_None_iff)
  then have mem: "x \<in> set (referenced_names r)" and none: "room_name_dict r x = None"
    unfolding first_dangling_def find_Some_iff by auto
  have "length (complete_room_list r) \<le> length (modified_room_list r)
          \<longrightarrow> x \<notin> set (complete_room_list r)"
    using none by (auto simp: room_name_dict_None_iff)
  with x mem none first_dangling_Some [OF x] show ?thesis
    by (auto simp: generate_bubble_diagram_response_items)
qed

lemma scenario_no_dangling: "first_dangling scenario = None"
  by (simp add: first_dangling_def referenced_names_def scenario_def room_name_dict_def
      py_dict_def)

text \<open>
  Claim C6 as stated has the error distinct. A response without the key \<open>front_door\<close>,
  in which no entry dangles, raises the very error of a response whose front-door entry
  names an unknown room \<open>front_door\<close>.
\<close>

theorem missing_key_raises_the_same_error:
  "generate_bubble_diagram_dict no_front_door_key = Inl (KeyError ''front_door'')
   \<and> generate_bubble_diagram_dict (response_items door_named_front_door)
       = Inl (KeyError ''front_door'')
   \<and> first_dangling scenario = None"
proof -
  have "raw_connection (scenario \<lparr> front_door := [] \<rparr>) = Inr [(''kitchen1'', ''bedroom1'')]"
    by (simp add: raw_connection_def scenario_def room_name_dict_def py_dict_def getitem_def
        bind_res_def)
  then have "generate_bubble_diagram_dict no_front_door_key = Inl (KeyError ''front_door'')"
    by (simp add: generate_bubble_diagram_dict_def no_front_door_key_def response_items_def
        subscript_def scenario_def)
  moreover have "first_dangling door_named_front_door = Some ''front_door''"
    by (simp add: first_dangling_def referenced_names_def door_named_front_door_def scenario_def
        room_name_dict_def py_dict_def)
  then have "generate_bubble_diagram_dict (response_items door_named_front_door)
       = Inl (KeyError ''front_door'')"
    by (simp add: generate_bubble_diagram_response_items first_dangling_Some)
  ultimately show ?thesis by (simp add: scenario_no_dangling)
qed

theorem dangling_reference_raises_key_error_witness:
  "first_dangling dangling = Some ''garage1''
   \<and> generate_bubble_diagram_dict (response_items dangling) = Inl (KeyError ''garage1'')"
proof -
  have "''garage1'' \<in> set (referenced_names dangling)"
    by (simp add: referenced_names_def dangling_def scenario_def)
  moreover have "''garage1'' \<notin> set (complete_room_list dangling)"
    by (simp add: dangling_def scenario_def)
  ultimately obtain x where x: "first_dangling dangling = Some x"
      "generate_bubble_diagram_dict (response_items dangling) = Inl (KeyError x)"
    using dangling_reference_raises_key_error [of "''garage1''" dangling] by blast
  moreover have "first_dangling dangling = Some ''garage1''"
    by (simp add: first_dangling_def referenced_names_def dangling_def scenario_def
        room_name_dict_def py_dict_def)
  ultimately show ?thesis by simp
qed

section \<open>Rooms that share a standardized name\<close>












section \<open>The search for the JSON object\<close>

lemma close_brace_body:
  assumes "brace_body b"
  shows "close_brace d (b @ CHR ''}'' # rest) =
           (case d of 0 \<Rightarrow> Some (b @ [CHR ''}''])
            | Suc d' \<Rightarrow> map_option (\<lambda>x. b @ CHR ''}'' # x) (close_brace d' rest))"
  using assms
proof (induction b arbitrary: d rest rule: brace_body.induct)
  case body_empty
  show ?case by (cases d) simp_all
next
  case (body_char c s)
  then show ?case
    by (cases d) (simp_all add: option.map_comp comp_def)
next
  case (body_nest b s)
  have "close_brace d ((CHR ''{'' # b @ CHR ''}'' # s) @ CHR ''}'' # rest) =
      map_option ((#) CHR ''{'') (close_brace (Suc d) (b @ CHR ''}'' # (s @ CHR ''}'' # rest)))"
    by simp
  also have "\<dots> = map_option ((#) CHR ''{'')
      (map_option (\<lambda>x. b @ CHR ''}'' # x) (close_brace d (s @ CHR ''}'' # rest)))"
    by (simp add: body_nest.IH(1))
  finally show ?case
    by (cases d) (simp_all add: body_nest.IH(2) option.map_comp comp_def)
qed

lemma match_here_object:
  assumes "brace_object obj"
  shows "match_here (obj @ post) = Some obj"
proof -
  from assms obtain b where b: "brace_body b" "obj = CHR ''{'' # b @ [CHR ''}'']"
    by (auto simp: brace_object_def)
  then show ?thesis
    using close_brace_body [OF b(1), of 0 post] by (simp add: match_here_def)
qed

lemma close_brace_sound:
  "close_brace d s = Some m \<Longrightarrow>
     \<exists>b m' rest. brace_body b \<and> m = b @ CHR ''}'' # m' \<and> s = m @ rest
        \<and> (case d of 0 \<Rightarrow> m' = [] | Suc d' \<Rightarrow> close_brace d' (m' @ rest) = Some m')"
proof (induction "length s" arbitrary: s d m rule: less_induct)
  case less
  from less.prems obtain c cs where s: "s = c # cs" by (cases s) auto
  consider (op) "c = CHR ''{''" | (cl) "c = CHR ''}''" | (ch) "c \<noteq> CHR ''{''" "c \<noteq> CHR ''}''"
    by blast
  then show ?case
  proof cases
    case op
    with less.prems s obtain m1 where m1: "close_brace (Suc d) cs = Some m1" "m = c # m1"
      by auto
    from less.hyps [OF _ m1(1)] s obtain b m' rest where
      1: "brace_body b" "m1 = b @ CHR ''}'' # m'" "cs = m1 @ rest"
        "close_brace d (m' @ rest) = Some m'"
      by auto
    have "length (m' @ rest) < length s" using s 1(2,3) by simp
    from less.hyps [OF this 1(4)] obtain b2 m'' rest2 where
      2: "brace_body b2" "m' = b2 @ CHR ''}'' # m''" "m' @ rest = m' @ rest2"
        "(case d of 0 \<Rightarrow> m'' = [] | Suc d' \<Rightarrow> close_brace d' (m'' @ rest2) = Some m'')"
      by blast
    from 2(3) have r: "rest2 = rest" by simp
    have "brace_body (CHR ''{'' # b @ CHR ''}'' # b2)"
      using 1(1) 2(1) by (rule body_nest)
    moreover have "m = (CHR ''{'' # b @ CHR ''}'' # b2) @ CHR ''}'' # m''"
      using m1(2) op 1(2) 2(2) by simp
    moreover have "s = m @ rest" using s m1(2) 1(3) by simp
    ultimately show ?thesis using 2(4) r by blast
  next
    case cl
    show ?thesis
    proof (cases d)
      case 0
      with less.prems s cl have "m = [CHR ''}'']" by simp
      with s cl 0 show ?thesis
        by (intro exI [of _ "[]"] exI [of _ cs]) (simp add: body_empty)
    next
      case (Suc d')
      with less.prems s cl obtain m1 where m1: "close_brace d' cs = Some m1" "m = c # m1"
        by auto
      from less.hyps [OF _ m1(1)] s obtain rest where "cs = m1 @ rest"
        by auto
      with m1 s cl Suc show ?thesis
        by (intro exI [of _ "[]"] exI [of _ m1] exI [of _ rest]) (simp add: body_empty)
    qed
  next
    case ch
    with less.prems s obtain m1 where m1: "close_brace d cs = Some m1" "m = c # m1"
      by auto
    from less.hyps [OF _ m1(1)] s obtain b m' rest where
      1: "brace_body b" "m1 = b @ CHR ''}'' # m'" "cs = m1 @ rest"
        "(case d of 0 \<Rightarrow> m' = [] | Suc d' \<Rightarrow> close_brace d' (m' @ rest) = Some m')"
      by auto
    have "brace_body (c # b)" using ch 1(1) by (rule body_char)
    moreover have "m = (c # b) @ CHR ''}'' # m'" using m1(2) 1(2) by simp
    moreover have "s = m @ rest" using s m1(2) 1(3) by simp
    ultimately show ?thesis using 1(4) by blast
  qed
qed

lemma match_here_sound:
  assumes "match_here s = Some m"
  shows "brace_object m \<and> (\<exists>rest. s = m @ rest)"
proof -
  from assms obtain cs m1 where s: "s = CHR ''{'' # cs" and m1: "close_brace 0 cs = Some m1"
    and m: "m = CHR ''{'' # m1"
    by (auto simp: match_here_def split: list.splits if_splits)
  from close_brace_sound [OF m1] obtain b rest where "brace_body b" "m1 = b @ [CHR ''}'']"
    "cs = m1 @ rest"
    by auto
  with s m show ?thesis
    by (auto simp: brace_object_def)
qed

lemma regex_search_sound:
  "regex_search s = Some m \<Longrightarrow> brace_object m \<and> (\<exists>pre post. s = pre @ m @ post)"
proof (induction s)
  case Nil
  then show ?case by simp
next
  case (Cons c cs)
  show ?case
  proof (cases "match_here (c # cs)")
    case None
    with Cons.prems have "regex_search cs = Some m" by simp
    from Cons.IH [OF this] obtain pre post where "brace_object m" "cs = pre @ m @ post" by blast
    then show ?thesis by (auto intro: exI [of _ "c # pre"])
  next
    case (Some m')
    with Cons.prems have "m' = m" by simp
    with match_here_sound [OF Some] show ?thesis
      by (auto intro: exI [of _ "[]"])
  qed
qed

lemma regex_search_complete:
  assumes "brace_object obj"
  shows "regex_search (pre @ obj @ post) \<noteq> None"
proof (induction pre)
  case Nil
  from assms obtain b where "obj = CHR ''{'' # b @ [CHR ''}'']" by (auto simp: brace_object_def)
  then obtain c cs where "obj @ post = c # cs" by simp
  then show ?case
    using match_here_object [OF assms, of post] by simp
next
  case (Cons c pre)
  then show ?case by (simp split: option.splits)
qed

lemma regex_search_None_iff: "regex_search s = None \<longleftrightarrow> \<not> contains_object s"
proof
  assume none: "regex_search s = None"
  show "\<not> contains_object s"
  proof
    assume "contains_object s"
    then obtain pre obj post where "s = pre @ obj @ post" "brace_object obj"
      by (auto simp: contains_object_def)
    with regex_search_complete [of obj pre post] none show False by simp
  qed
next
  assume "\<not> contains_object s"
  then show "regex_search s = None"
    using regex_search_sound [of s] by (cases "regex_search s") (auto simp: contains_object_def)
qed

lemma regex_search_skip:
  "CHR ''{'' \<notin> set pre \<Longrightarrow> regex_search (pre @ s) = regex_search s"
  by (induction pre) (auto simp: match_here_def)

lemma regex_search_first_object:
  assumes "CHR ''{'' \<notin> set pre" and "brace_object obj"
  shows "regex_search (pre @ obj @ post) = Some obj"
proof -
  from assms(2) obtain b where "obj = CHR ''{'' # b @ [CHR ''}'']" by (auto simp: brace_object_def)
  then obtain c cs where "obj @ post = c # cs" by simp
  then have "regex_search (obj @ post) = Some obj"
    using match_here_object [OF assms(2), of post] by simp
  with assms(1) show ?thesis by (simp add: regex_search_skip)
qed

lemma strip_ws_filter: "strip_ws s = filter (\<lambda>c. c \<noteq> CHR 0x0A \<and> c \<noteq> CHR '' '') s"
  by (auto simp: strip_ws_def intro: filter_cong)

lemma strip_ws_append [simp]: "strip_ws (a @ b) = strip_ws a @ strip_ws b"
  by (simp add: strip_ws_def)

lemma strip_ws_Cons:
  "strip_ws (c # s) = (if c = CHR 0x0A \<or> c = CHR '' '' then strip_ws s else c # strip_ws s)"
  by (simp add: strip_ws_def)

lemma brace_body_strip_ws: "brace_body b \<Longrightarrow> brace_body (strip_ws b)"
proof (induction b rule: brace_body.induct)
  case body_empty
  then show ?case by (simp add: strip_ws_def brace_body.body_empty)
next
  case (body_char c s)
  then show ?case by (simp add: strip_ws_Cons brace_body.body_char)
next
  case (body_nest b s)
  then show ?case by (simp add: strip_ws_Cons brace_body.body_nest)
qed

lemma brace_object_strip_ws: "brace_object obj \<Longrightarrow> brace_object (strip_ws obj)"
  unfolding brace_object_def
  by (auto simp: strip_ws_Cons strip_ws_def [of "[]"] dest: brace_body_strip_ws)

lemma prose_strip_ws: "prose s \<Longrightarrow> CHR ''{'' \<notin> set (strip_ws s)"
  by (simp add: prose_def strip_ws_def)

lemma no_braces_body: "CHR ''{'' \<notin> set b \<Longrightarrow> CHR ''}'' \<notin> set b \<Longrightarrow> brace_body b"
  by (induction b) (auto intro: brace_body.intros)

text \<open>A text contains an object exactly when some opening brace precedes a closing brace.\<close>

lemma open_before_close_contains:
  "s = a @ CHR ''{'' # b @ CHR ''}'' # c \<Longrightarrow> contains_object s"
proof (induction "length b" arbitrary: a b c rule: less_induct)
  case less
  show ?case
  proof (cases "CHR ''{'' \<in> set b")
    case True
    then obtain b1 b2 where b: "b = b1 @ CHR ''{'' # b2" by (auto dest: split_list)
    have "s = (a @ CHR ''{'' # b1) @ CHR ''{'' # b2 @ CHR ''}'' # c"
      using less.prems b by simp
    moreover have "length b2 < length b" using b by simp
    ultimately show ?thesis using less.hyps by blast
  next
    case no_open: False
    show ?thesis
    proof (cases "CHR ''}'' \<in> set b")
      case True
      then obtain b1 b2 where b: "b = b1 @ CHR ''}'' # b2" by (auto dest: split_list)
      have "s = a @ CHR ''{'' # b1 @ CHR ''}'' # (b2 @ CHR ''}'' # c)"
        using less.prems b by simp
      moreover have "length b1 < length b" using b by simp
      ultimately show ?thesis using less.hyps by blast
    next
      case False
      with no_open have "brace_body b" by (rule no_braces_body)
      then have "brace_object (CHR ''{'' # b @ [CHR ''}''])"
        by (auto simp: brace_object_def)
      moreover have "s = a @ (CHR ''{'' # b @ [CHR ''}'']) @ c" using less.prems by simp
      ultimately show ?thesis unfolding contains_object_def by blast
    qed
  qed
qed

lemma contains_object_iff:
  "contains_object s \<longleftrightarrow> (\<exists>a b c. s = a @ CHR ''{'' # b @ CHR ''}'' # c)"
proof
  assume "contains_object s"
  then obtain pre b post where "s = pre @ (CHR ''{'' # b @ [CHR ''}'']) @ post"
    by (auto simp: contains_object_def brace_object_def)
  then have "s = pre @ CHR ''{'' # b @ CHR ''}'' # post" by simp
  then show "\<exists>a b c. s = a @ CHR ''{'' # b @ CHR ''}'' # c" by blast
next
  assume "\<exists>a b c. s = a @ CHR ''{'' # b @ CHR ''}'' # c"
  then show "contains_object s" using open_before_close_contains by blast
qed

lemma contains_object_has_brace: "contains_object s \<Longrightarrow> CHR ''{'' \<in> set s"
  by (auto simp: contains_object_iff)

lemma filter_eq_appendD:
  "filter P s = a @ r \<Longrightarrow> \<exists>u v. s = u @ v \<and> filter P u = a \<and> filter P v = r"
proof (induction a arbitrary: s)
  case Nil
  then show ?case by (intro exI [of _ "[]"] exI [of _ s]) simp
next
  case (Cons x a)
  then obtain us vs where s: "s = us @ x # vs" "\<forall>u \<in> set us. \<not> P u" "P x" "filter P vs = a @ r"
    by (auto simp: filter_eq_Cons_iff)
  from Cons.IH [OF s(4)] obtain u v where "vs = u @ v" "filter P u = a" "filter P v = r"
    by blast
  with s show ?case
    by (intro exI [of _ "us @ x # u"] exI [of _ v]) simp
qed

lemma filter_open_before_close:
  assumes "filter P s = a @ x # b @ y # c"
  shows "\<exists>a' b' c'. s = a' @ x # b' @ y # c'"
proof -
  from assms obtain u v where uv: "s = u @ v" "filter P v = x # b @ y # c"
    by (auto dest: filter_eq_appendD)
  from uv(2) obtain us vs where v: "v = us @ x # vs" "filter P vs = b @ y # c"
    by (auto simp: filter_eq_Cons_iff)
  from v(2) obtain u2 v2 where u2: "vs = u2 @ v2" "filter P v2 = y # c"
    by (auto dest: filter_eq_appendD)
  from u2(2) obtain us2 vs2 where "v2 = us2 @ y # vs2"
    by (auto simp: filter_eq_Cons_iff)
  with uv(1) v(1) u2(1) have "s = (u @ us) @ x # (u2 @ us2) @ y # vs2" by simp
  then show ?thesis by blast
qed

lemma contains_object_strip_ws: "contains_object (strip_ws s) \<longleftrightarrow> contains_object s"
proof
  assume "contains_object (strip_ws s)"
  then show "contains_object s"
    unfolding contains_object_iff strip_ws_filter by (auto dest: filter_open_before_close)
next
  assume "contains_object s"
  then obtain pre obj post where "s = pre @ obj @ post" "brace_object obj"
    by (auto simp: contains_object_def)
  then have "strip_ws s = strip_ws pre @ strip_ws obj @ strip_ws post" "brace_object (strip_ws obj)"
    by (simp_all add: brace_object_strip_ws)
  then show "contains_object (strip_ws s)"
    unfolding contains_object_def by blast
qed

lemma search_group_first_object:
  assumes "prose pre" and "brace_object obj"
  shows "search_group (pre @ obj @ post) = Inr (strip_ws obj)"
  using regex_search_first_object [OF prose_strip_ws [OF assms(1)] brace_object_strip_ws [OF assms(2)]]
  by (simp add: search_group_def)

lemma search_group_fails_iff: "search_group s = Inl e \<longleftrightarrow> \<not> contains_object s \<and> e = AttributeError"
  using regex_search_None_iff [of "strip_ws s"]
  by (auto simp: search_group_def contains_object_strip_ws split: option.splits)

section \<open>The JSON decoder\<close>

text \<open>Every part of the decoder that returns has read at least one character.\<close>

lemma length_unicode_escape: "unicode_escape s = Some (u, rest) \<Longrightarrow> length rest \<le> length s"
  by (auto simp: unicode_escape_def Let_def split: option.splits if_splits)

lemma length_escape: "escape s = Some (u, rest) \<Longrightarrow> length rest < length s"
  by (auto simp: escape_def split: list.splits option.splits if_splits
      dest: length_unicode_escape)

lemma length_skip_whitespace: "length (skip_whitespace s) \<le> length s"
  by (simp add: skip_whitespace_def length_dropWhile_le)

lemma skip_whitespace_Cons: "skip_whitespace s = c # cs \<Longrightarrow> length cs < length s"
  using length_skip_whitespace [of s] by simp

lemma chunk_Inr: "chunk u res = Inr (t, r) \<longleftrightarrow> (\<exists>t'. res = Inr (t', r) \<and> t = u # t')"
  by (auto simp: chunk_def split: sum.splits)

lemma chunk_Inl: "chunk u res = Inl e \<longleftrightarrow> res = Inl e"
  by (auto simp: chunk_def split: sum.splits)

lemma scanstring_length: "scanstring s = Inr (t, r) \<Longrightarrow> length r < length s"
proof (induction "length s" arbitrary: s t rule: less_induct)
  case less
  show ?case
  proof (cases s)
    case Nil
    with less.prems show ?thesis by simp
  next
    case (Cons c cs)
    have tail: "length r < length s" if "scanstring s' = Inr (t', r)" "length s' < length s"
      for s' t' using less.hyps [OF that(2) that(1)] that(2) by simp
    consider (quote) "c = CHR 0x22" | (bs) "c \<noteq> CHR 0x22" "c = CHR 0x5C"
      | (other) "c \<noteq> CHR 0x22" "c \<noteq> CHR 0x5C" by blast
    then show ?thesis
    proof cases
      case quote
      with less.prems show ?thesis by (simp add: Cons)
    next
      case bs
      with less.prems obtain u rest t' where e: "escape cs = Some (u, rest)"
        and r: "scanstring rest = Inr (t', r)"
        by (auto simp: Cons chunk_Inr split: option.splits)
      from length_escape [OF e] have "length rest < length s" by (simp add: Cons)
      with r show ?thesis by (rule tail)
    next
      case other
      with less.prems obtain t' where "scanstring cs = Inr (t', r)"
        by (auto simp: Cons chunk_Inr split: if_splits)
      then show ?thesis by (rule tail) (simp add: Cons)
    qed
  qed
qed

lemma scanstring_error: "scanstring s = Inl e \<Longrightarrow> e = JSONDecodeError"
proof (induction "length s" arbitrary: s rule: less_induct)
  case less
  show ?case
  proof (cases s)
    case Nil
    with less.prems show ?thesis by simp
  next
    case (Cons c cs)
    have ih: "e = JSONDecodeError" if "scanstring s' = Inl e" "length s' < length s"
      for s' using less.hyps [OF that(2) that(1)] .
    consider (quote) "c = CHR 0x22" | (bs) "c \<noteq> CHR 0x22" "c = CHR 0x5C"
      | (other) "c \<noteq> CHR 0x22" "c \<noteq> CHR 0x5C" by blast
    then show ?thesis
    proof cases
      case quote
      with less.prems show ?thesis by (simp add: Cons)
    next
      case bs
      show ?thesis
      proof (cases "escape cs")
        case None
        with bs less.prems show ?thesis by (simp add: Cons)
      next
        case (Some p)
        obtain u rest where p: "p = (u, rest)" by (cases p)
        from length_escape [OF Some [unfolded p]] have "length rest < length s"
          by (simp add: Cons)
        moreover from bs less.prems Some p have "scanstring rest = Inl e"
          by (simp add: Cons chunk_Inl)
        ultimately show ?thesis using ih by blast
      qed
    next
      case other
      show ?thesis
      proof (cases "of_char c \<le> (0x1F :: nat)")
        case True
        with other less.prems show ?thesis by (simp add: Cons)
      next
        case False
        with other less.prems have "scanstring cs = Inl e" by (simp add: Cons chunk_Inl)
        then show ?thesis by (rule ih) (simp add: Cons)
      qed
    qed
  qed
qed

lemma length_sign_part: "sign_part s = (g, r) \<Longrightarrow> length r \<le> length s"
  by (auto simp: sign_part_def split: list.splits if_splits)

lemma length_integer_part: "integer_part s = Some (ds, r) \<Longrightarrow> length r < length s"
  by (auto simp: integer_part_def less_Suc_eq_le length_dropWhile_le split: list.splits if_splits)

lemma length_frac_part: "frac_part s = (f, r) \<Longrightarrow> length r \<le> length s"
  using length_dropWhile_le [of digit "tl s"]
  by (auto simp: frac_part_def split: if_splits)

lemma length_exp_part: "exp_part s = (x, r) \<Longrightarrow> length r \<le> length s"
proof (cases s)
  case Nil
  then show "exp_part s = (x, r) \<Longrightarrow> length r \<le> length s" by (simp add: exp_part_def)
next
  case (Cons e es)
  assume a: "exp_part s = (x, r)"
  have "length (dropWhile digit es) \<le> length es" "length (dropWhile digit (tl es)) \<le> length es"
    using length_dropWhile_le [of digit es] length_dropWhile_le [of digit "tl es"] by simp_all
  with a show "length r \<le> length s" unfolding Cons
    by (auto simp: exp_part_def Let_def split: if_splits list.splits prod.splits)
qed

lemma length_match_number: "match_number s = Some (v, r) \<Longrightarrow> length r < length s"
  by (auto simp: match_number_def Let_def split: prod.splits option.splits if_splits
      dest!: length_sign_part length_integer_part length_frac_part length_exp_part)

lemma length_after_prefix: "after_prefix p s = Some r \<Longrightarrow> p \<noteq> [] \<Longrightarrow> length r < length s"
  by (cases s) (auto simp: after_prefix_def split: if_splits)

lemma length_scan_constant: "scan_constant s = Some (v, r) \<Longrightarrow> length r < length s"
  by (auto simp: scan_constant_def split: option.splits
      dest: length_match_number length_after_prefix)

lemma scan_once_consumes_step:
  assumes obj: "\<And>ps s v r. JSONObject n ps s = Inr (v, r) \<Longrightarrow> length r < length s"
    and arr: "\<And>vs s v r. JSONArray n vs s = Inr (v, r) \<Longrightarrow> length r < length s"
    and res: "scan_once (Suc n) s = Inr (v, r)"
  shows "length r < length s"
proof (cases s)
  case Nil
  with res show ?thesis by simp
next
  case (Cons c cs)
  consider (str) "c = CHR 0x22" | (obj) "c \<noteq> CHR 0x22" "c = CHR ''{''"
    | (arr) "c \<noteq> CHR 0x22" "c \<noteq> CHR ''{''" "c = CHR ''[''"
    | (const) "c \<noteq> CHR 0x22" "c \<noteq> CHR ''{''" "c \<noteq> CHR ''[''" by blast
  then show ?thesis
  proof cases
    case str
    with res obtain t where "scanstring cs = Inr (t, r)"
      by (auto simp: Cons split: sum.splits)
    from scanstring_length [OF this] show ?thesis by (simp add: Cons)
  next
    case obj
    with res obtain d ds where d: "skip_whitespace cs = d # ds"
      by (auto simp: Cons split: list.splits)
    from skip_whitespace_Cons [OF d] have l: "length ds < length cs" .
    from obj res d consider "r = ds" | "JSONObject n [] ds = Inr (v, r)"
      by (auto simp: Cons split: if_splits)
    then show ?thesis
    proof cases
      case 1
      with l show ?thesis by (simp add: Cons)
    next
      case 2
      from assms(1) [OF 2] l show ?thesis by (simp add: Cons)
    qed
  next
    case arr
    with res obtain d ds where d: "skip_whitespace cs = d # ds"
      by (auto simp: Cons split: list.splits)
    from skip_whitespace_Cons [OF d] have l: "length ds < length cs" .
    from arr res d consider "r = ds" | "JSONArray n [] (d # ds) = Inr (v, r)"
      by (auto simp: Cons split: if_splits)
    then show ?thesis
    proof cases
      case 1
      with l show ?thesis by (simp add: Cons)
    next
      case 2
      from assms(2) [OF 2] l show ?thesis by (simp add: Cons)
    qed
  next
    case const
    with res have "scan_constant s = Some (v, r)"
      by (auto simp: Cons split: option.splits)
    then show ?thesis by (rule length_scan_constant)
  qed
qed

lemma JSONObject_consumes_step:
  assumes scan: "\<And>s v r. scan_once n s = Inr (v, r) \<Longrightarrow> length r < length s"
    and obj: "\<And>ps s v r. JSONObject n ps s = Inr (v, r) \<Longrightarrow> length r < length s"
    and res: "JSONObject (Suc n) ps s = Inr (v, r)"
  shows "length r < length s"
proof -
  from res obtain key s1 where k: "scanstring s = Inr (key, s1)"
    by (auto split: sum.splits)
  from res k obtain c s2 where c: "skip_whitespace s1 = c # s2"
    by (auto split: list.splits)
  from res k c have colon: "c = CHR '':''" by (auto split: if_splits)
  from res k c colon obtain w s3 where w: "scan_once n (skip_whitespace s2) = Inr (w, s3)"
    by (auto split: sum.splits)
  from res k c colon w obtain d s4 where d: "skip_whitespace s3 = d # s4"
    by (auto split: list.splits)
  have l: "length s4 < length s"
    using scanstring_length [OF k] skip_whitespace_Cons [OF c] scan [OF w]
      length_skip_whitespace [of s2] skip_whitespace_Cons [OF d] by simp
  show ?thesis
  proof (cases "d = CHR ''}''")
    case True
    with res k c colon w d have "r = s4" by simp
    with l show ?thesis by simp
  next
    case False
    with res k c colon w d have comma: "d = CHR '',''" by (auto split: if_splits)
    from res k c colon w d False comma obtain q s5 where q: "skip_whitespace s4 = q # s5"
      by (auto split: list.splits)
    from res k c colon w d False comma q
    have "JSONObject n (ps @ [(key, w)]) s5 = Inr (v, r)" by (auto split: if_splits)
    from obj [OF this] skip_whitespace_Cons [OF q] l show ?thesis by simp
  qed
qed

lemma JSONArray_consumes_step:
  assumes scan: "\<And>s v r. scan_once n s = Inr (v, r) \<Longrightarrow> length r < length s"
    and arr: "\<And>vs s v r. JSONArray n vs s = Inr (v, r) \<Longrightarrow> length r < length s"
    and res: "JSONArray (Suc n) vs s = Inr (v, r)"
  shows "length r < length s"
proof -
  from res obtain w s1 where w: "scan_once n s = Inr (w, s1)"
    by (auto split: sum.splits)
  from res w obtain d s2 where d: "skip_whitespace s1 = d # s2"
    by (auto split: list.splits)
  have l: "length s2 < length s"
    using scan [OF w] skip_whitespace_Cons [OF d] by simp
  show ?thesis
  proof (cases "d = CHR '']''")
    case True
    with res w d have "r = s2" by simp
    with l show ?thesis by simp
  next
    case False
    with res w d have comma: "d = CHR '',''" by (auto split: if_splits)
    from res w d False comma
    have "JSONArray n (vs @ [w]) (skip_whitespace s2) = Inr (v, r)" by simp
    from arr [OF this] length_skip_whitespace [of s2] l show ?thesis by simp
  qed
qed

lemma decoder_consumes:
  "(scan_once n s = Inr (v, r) \<longrightarrow> length r < length s)
   \<and> (JSONObject n ps s = Inr (v, r) \<longrightarrow> length r < length s)
   \<and> (JSONArray n vs s = Inr (v, r) \<longrightarrow> length r < length s)"
proof (induction n arbitrary: s v r ps vs)
  case 0
  show ?case by simp
next
  case (Suc n)
  have scan: "\<And>s v r. scan_once n s = Inr (v, r) \<Longrightarrow> length r < length s"
    and obj: "\<And>ps s v r. JSONObject n ps s = Inr (v, r) \<Longrightarrow> length r < length s"
    and arr: "\<And>vs s v r. JSONArray n vs s = Inr (v, r) \<Longrightarrow> length r < length s"
    using Suc by blast+
  show ?case
  proof (intro conjI impI)
    assume a: "scan_once (Suc n) s = Inr (v, r)"
    show "length r < length s"
      by (rule scan_once_consumes_step [where n = n]) (erule obj, erule arr, rule a)
  next
    assume a: "JSONObject (Suc n) ps s = Inr (v, r)"
    show "length r < length s"
      by (rule JSONObject_consumes_step [where n = n]) (erule scan, erule obj, rule a)
  next
    assume a: "JSONArray (Suc n) vs s = Inr (v, r)"
    show "length r < length s"
      by (rule JSONArray_consumes_step [where n = n]) (erule scan, erule arr, rule a)
  qed
qed

text \<open>
  With the calls that \<open>json_loads\<close> allows, the decoder never reaches depth 0: the only
  error it raises is \<open>JSONDecodeError\<close>.
\<close>

lemma scan_once_consumes: "scan_once n s = Inr (v, r) \<Longrightarrow> length r < length s"
  using decoder_consumes by blast

lemma scan_once_error_step:
  assumes obj: "\<And>ps s. 2 * length s < n \<Longrightarrow> JSONObject n ps s = Inl e \<Longrightarrow> e = JSONDecodeError"
    and arr: "\<And>vs s. 2 * length s + 1 < n \<Longrightarrow> JSONArray n vs s = Inl e \<Longrightarrow> e = JSONDecodeError"
    and len: "2 * length s < Suc n"
    and res: "scan_once (Suc n) s = Inl e"
  shows "e = JSONDecodeError"
proof (cases s)
  case Nil
  with res show ?thesis by simp
next
  case (Cons c cs)
  consider (str) "c = CHR 0x22" | (obj) "c \<noteq> CHR 0x22" "c = CHR ''{''"
    | (arr) "c \<noteq> CHR 0x22" "c \<noteq> CHR ''{''" "c = CHR ''[''"
    | (const) "c \<noteq> CHR 0x22" "c \<noteq> CHR ''{''" "c \<noteq> CHR ''[''" by blast
  then show ?thesis
  proof cases
    case str
    with res have "scanstring cs = Inl e"
      by (auto simp: Cons split: sum.splits)
    then show ?thesis by (rule scanstring_error)
  next
    case obj
    show ?thesis
    proof (cases "skip_whitespace cs")
      case Nil
      with obj res show ?thesis by (simp add: Cons)
    next
      case (Cons d ds)
      from skip_whitespace_Cons [OF Cons] len have l: "2 * length ds < n"
        by (simp add: \<open>s = c # cs\<close>)
      show ?thesis
      proof (cases "d = CHR ''}''")
        case True
        with obj res Cons show ?thesis by (simp add: \<open>s = c # cs\<close>)
      next
        case False
        show ?thesis
        proof (cases "d = CHR 0x22")
          case True
          with obj res Cons have "JSONObject n [] ds = Inl e" by (simp add: \<open>s = c # cs\<close>)
          then show ?thesis using assms(1) [OF l] by blast
        next
          case no_quote: False
          with False obj res Cons show ?thesis by (simp add: \<open>s = c # cs\<close>)
        qed
      qed
    qed
  next
    case arr
    show ?thesis
    proof (cases "skip_whitespace cs")
      case Nil
      with arr res show ?thesis by (simp add: Cons)
    next
      case (Cons d ds)
      from length_skip_whitespace [of cs] len have l: "2 * length (d # ds) + 1 < n"
        by (simp add: \<open>s = c # cs\<close> Cons)
      show ?thesis
      proof (cases "d = CHR '']''")
        case True
        with arr res Cons show ?thesis by (simp add: \<open>s = c # cs\<close>)
      next
        case False
        with arr res Cons have "JSONArray n [] (d # ds) = Inl e"
          by (simp add: \<open>s = c # cs\<close>)
        then show ?thesis using assms(2) [OF l] by blast
      qed
    qed
  next
    case const
    with res show ?thesis
      by (auto simp: Cons split: option.splits)
  qed
qed

lemma JSONObject_error_step:
  assumes scan: "\<And>s. 2 * length s < n \<Longrightarrow> scan_once n s = Inl e \<Longrightarrow> e = JSONDecodeError"
    and obj: "\<And>ps s. 2 * length s < n \<Longrightarrow> JSONObject n ps s = Inl e \<Longrightarrow> e = JSONDecodeError"
    and len: "2 * length s < Suc n"
    and res: "JSONObject (Suc n) ps s = Inl e"
  shows "e = JSONDecodeError"
proof (cases "scanstring s")
  case (Inl e')
  with res scanstring_error [OF Inl] show ?thesis by simp
next
  case (Inr p)
  obtain key s1 where p: "p = (key, s1)" by (cases p)
  note k = Inr [unfolded p]
  show ?thesis
  proof (cases "skip_whitespace s1")
    case Nil
    with res k show ?thesis by simp
  next
    case (Cons c s2)
    note c = Cons
    show ?thesis
    proof (cases "c = CHR '':''")
      case False
      with res k c show ?thesis by simp
    next
      case True
      have l2: "2 * length (skip_whitespace s2) < n"
        using scanstring_length [OF k] skip_whitespace_Cons [OF c]
          length_skip_whitespace [of s2] len by simp
      show ?thesis
      proof (cases "scan_once n (skip_whitespace s2)")
        case (Inl e')
        with res k c True have "e' = e" by simp
        with Inl scan [OF l2] show ?thesis by simp
      next
        case (Inr q)
        obtain w s3 where q: "q = (w, s3)" by (cases q)
        note w = Inr [unfolded q]
        show ?thesis
        proof (cases "skip_whitespace s3")
          case Nil
          with res k c True w show ?thesis by simp
        next
          case (Cons d s4)
          note d = Cons
          have l4: "length s4 < length s"
            using scanstring_length [OF k] skip_whitespace_Cons [OF c] scan_once_consumes [OF w]
              length_skip_whitespace [of s2] skip_whitespace_Cons [OF d] by simp
          have step: "JSONObject (Suc n) ps s =
              (if d = CHR ''}'' then Inr (JObject (ps @ [(key, w)]), s4)
               else if d \<noteq> CHR '','' then Inl JSONDecodeError
               else (case skip_whitespace s4 of
                       [] \<Rightarrow> Inl JSONDecodeError
                     | q # s5 \<Rightarrow>
                         if q = CHR 0x22 then JSONObject n (ps @ [(key, w)]) s5
                         else Inl JSONDecodeError))"
            by (simp add: k c \<open>c = CHR '':''\<close> w d)
          show ?thesis
          proof (cases "d = CHR ''}''")
            case True
            with res show ?thesis unfolding step by simp
          next
            case no_close: False
            show ?thesis
            proof (cases "d = CHR '',''")
              case False
              with no_close res show ?thesis unfolding step by simp
            next
              case True
              show ?thesis
              proof (cases "skip_whitespace s4")
                case Nil
                with res no_close True show ?thesis unfolding step by simp
              next
                case (Cons q s5)
                have l5: "2 * length s5 < n"
                  using skip_whitespace_Cons [OF Cons] l4 len by simp
                show ?thesis
                proof (cases "q = CHR 0x22")
                  case False
                  with res no_close True Cons show ?thesis unfolding step by simp
                next
                  case quote: True
                  with res no_close True Cons
                  have "JSONObject n (ps @ [(key, w)]) s5 = Inl e" unfolding step by simp
                  then show ?thesis using obj [OF l5] by blast
                qed
              qed
            qed
          qed
        qed
      qed
    qed
  qed
qed

lemma JSONArray_error_step:
  assumes scan: "\<And>s. 2 * length s < n \<Longrightarrow> scan_once n s = Inl e \<Longrightarrow> e = JSONDecodeError"
    and arr: "\<And>vs s. 2 * length s + 1 < n \<Longrightarrow> JSONArray n vs s = Inl e \<Longrightarrow> e = JSONDecodeError"
    and len: "2 * length s + 1 < Suc n"
    and res: "JSONArray (Suc n) vs s = Inl e"
  shows "e = JSONDecodeError"
proof (cases "scan_once n s")
  case (Inl e')
  with res have "e' = e" by simp
  with Inl scan [of s] len show ?thesis by simp
next
  case (Inr q)
  obtain w s1 where q: "q = (w, s1)" by (cases q)
  note w = Inr [unfolded q]
  show ?thesis
  proof (cases "skip_whitespace s1")
    case Nil
    with res w show ?thesis by simp
  next
    case (Cons d s2)
    have l: "2 * length (skip_whitespace s2) + 1 < n"
      using scan_once_consumes [OF w] skip_whitespace_Cons [OF Cons]
        length_skip_whitespace [of s2] len by simp
    have step: "JSONArray (Suc n) vs s =
        (if d = CHR '']'' then Inr (JArray (vs @ [w]), s2)
         else if d \<noteq> CHR '','' then Inl JSONDecodeError
         else JSONArray n (vs @ [w]) (skip_whitespace s2))"
      by (simp add: w Cons)
    show ?thesis
    proof (cases "d = CHR '']''")
      case True
      with res show ?thesis unfolding step by simp
    next
      case no_close: False
      show ?thesis
      proof (cases "d = CHR '',''")
        case False
        with no_close res show ?thesis unfolding step by simp
      next
        case True
        with no_close res have "JSONArray n (vs @ [w]) (skip_whitespace s2) = Inl e"
          unfolding step by simp
        then show ?thesis using arr [OF l] by blast
      qed
    qed
  qed
qed

lemma decoder_errors:
  "(2 * length s < n \<longrightarrow> scan_once n s = Inl e \<longrightarrow> e = JSONDecodeError)
   \<and> (2 * length s < n \<longrightarrow> JSONObject n ps s = Inl e \<longrightarrow> e = JSONDecodeError)
   \<and> (2 * length s + 1 < n \<longrightarrow> JSONArray n vs s = Inl e \<longrightarrow> e = JSONDecodeError)"
proof (induction n arbitrary: s ps vs)
  case 0
  show ?case by simp
next
  case (Suc n)
  have scan: "\<And>s. 2 * length s < n \<Longrightarrow> scan_once n s = Inl e \<Longrightarrow> e = JSONDecodeError"
    and obj: "\<And>ps s. 2 * length s < n \<Longrightarrow> JSONObject n ps s = Inl e \<Longrightarrow> e = JSONDecodeError"
    and arr: "\<And>vs s. 2 * length s + 1 < n \<Longrightarrow> JSONArray n vs s = Inl e \<Longrightarrow> e = JSONDecodeError"
    using Suc by blast+
  show ?case
  proof (intro conjI impI)
    assume a: "2 * length s < Suc n" "scan_once (Suc n) s = Inl e"
    show "e = JSONDecodeError"
      by (rule scan_once_error_step [where n = n and s = s])
        (erule obj, assumption, erule arr, assumption, rule a, rule a)
  next
    assume a: "2 * length s < Suc n" "JSONObject (Suc n) ps s = Inl e"
    show "e = JSONDecodeError"
      by (rule JSONObject_error_step [where n = n and s = s and ps = ps])
        (erule scan, assumption, erule obj, assumption, rule a, rule a)
  next
    assume a: "2 * length s + 1 < Suc n" "JSONArray (Suc n) vs s = Inl e"
    show "e = JSONDecodeError"
      by (rule JSONArray_error_step [where n = n and s = s and vs = vs])
        (erule scan, assumption, erule arr, assumption, rule a, rule a)
  qed
qed

lemma json_loads_error: "json_loads s = Inl e \<Longrightarrow> e = JSONDecodeError"
proof -
  assume a: "json_loads s = Inl e"
  have l: "2 * length (skip_whitespace s) < Suc (2 * length s)"
    using length_skip_whitespace [of s] by simp
  show ?thesis
  proof (cases "scan_once (Suc (2 * length s)) (skip_whitespace s)")
    case (Inl e')
    with a have "e' = e" by (simp add: json_loads_def)
    with Inl decoder_errors [of "skip_whitespace s" "Suc (2 * length s)" e] l show ?thesis
      by blast
  next
    case (Inr q)
    with a show ?thesis by (auto simp: json_loads_def split: prod.splits if_splits)
  qed
qed

lemma json_loads_calls_suffice: "json_loads s \<noteq> Inl RecursionError"
  using json_loads_error [of s RecursionError] by auto

lemma extract_json_search_group:
  "search_group s = Inr m \<Longrightarrow> extract_json s = json_loads m"
  by (simp add: extract_json_def)

lemma extract_json_error:
  assumes "extract_json s = Inl e"
  shows "e = AttributeError \<and> \<not> contains_object s
         \<or> e = JSONDecodeError \<and> contains_object s"
proof (cases "search_group s")
  case (Inl e')
  with assms have "e' = e" by (simp add: extract_json_def)
  with Inl show ?thesis by (simp add: search_group_fails_iff)
next
  case (Inr m)
  with assms have "json_loads m = Inl e" by (simp add: extract_json_def)
  from json_loads_error [OF this] Inr search_group_fails_iff [of s AttributeError]
  show ?thesis by auto
qed

text \<open>
  Claim C7, amended: for every response that holds one object of the pattern's language
  between two stretches of prose, the parser extracts exactly that object (from the text
  with its spaces and newlines removed, as the code searches it) and returns what
  \<open>json.loads\<close> makes of it: the decoded object, or \<open>JSONDecodeError\<close> when the text in
  the braces is not JSON. Parsing fails with the \<open>AttributeError\<close> of \<open>.group()\<close> on
  \<open>None\<close> exactly for the responses that contain no such object. For a response with
  two top-level objects the parser decodes the first one and ignores the second.
\<close>

theorem json_object_extraction:
  "(prose pre \<and> brace_object obj \<and> prose post
      \<longrightarrow> search_group (pre @ obj @ post) = Inr (strip_ws obj)
          \<and> extract_json (pre @ obj @ post) = json_loads (strip_ws obj))
   \<and> (\<not> contains_object s \<longleftrightarrow> extract_json s = Inl AttributeError)
   \<and> (prose pre \<and> brace_object obj \<and> prose mid \<and> brace_object obj' \<and> prose post
      \<longrightarrow> extract_json (pre @ obj @ mid @ obj' @ post) = json_loads (strip_ws obj))"
proof -
  have one: "search_group (pre @ obj @ rest) = Inr (strip_ws obj)
      \<and> extract_json (pre @ obj @ rest) = json_loads (strip_ws obj)"
    if "prose pre" "brace_object obj" for rest
    using search_group_first_object [OF that, of rest] by (simp add: extract_json_search_group)
  have none: "\<not> contains_object s \<longleftrightarrow> extract_json s = Inl AttributeError"
  proof
    assume "\<not> contains_object s"
    then have "search_group s = Inl AttributeError" by (simp add: search_group_fails_iff)
    then show "extract_json s = Inl AttributeError" by (simp add: extract_json_def)
  next
    assume "extract_json s = Inl AttributeError"
    from extract_json_error [OF this] show "\<not> contains_object s" by simp
  qed
  from one [of post] one [of "mid @ obj' @ post"] none show ?thesis by blast
qed

lemma scenario_json_object: "brace_object scenario_json"
proof -
  have "match_here scenario_json = Some scenario_json"
    unfolding scenario_json_def by code_simp
  from match_here_sound [OF this] show ?thesis by simp
qed

lemma scenario_json_decoded: "json_loads (strip_ws scenario_json) = Inr scenario_decoded"
  unfolding scenario_json_def scenario_decoded_def by code_simp

theorem json_object_extraction_witness:
  "extract_json scenario_reply = Inr scenario_decoded
   \<and> extract_json ''I cannot help with that.'' = Inl AttributeError
   \<and> extract_json unquoted_key = Inl JSONDecodeError"
proof -
  have p1: "prose ''Here is the plan: ''" and p2: "prose '' Enjoy!''"
    by (simp_all add: prose_def)
  have "extract_json (''Here is the plan: '' @ scenario_json @ '' Enjoy!'')
      = json_loads (strip_ws scenario_json)"
    using json_object_extraction [of "''Here is the plan: ''" scenario_json "'' Enjoy!''"]
      p1 p2 scenario_json_object by blast
  moreover have "\<not> contains_object ''I cannot help with that.''"
    by (auto dest: contains_object_has_brace)
  then have "extract_json ''I cannot help with that.'' = Inl AttributeError"
    using json_object_extraction [where s = "''I cannot help with that.''"] by blast
  moreover have "extract_json unquoted_key = Inl JSONDecodeError"
    unfolding unquoted_key_def by code_simp
  ultimately show ?thesis by (simp add: scenario_reply_def scenario_json_decoded)
qed

text \<open>
  Claim C7 as stated has parsing fail on a response with two top-level objects.
  \<open>regex.search\<close> returns the leftmost match: the first object is decoded, and nothing
  is raised.
\<close>

theorem two_objects_first_is_decoded:
  "extract_json two_plans = Inr (JObject [(code_points ''a'', JInt 1)])"
  unfolding two_plans_def by code_simp

section \<open>The triples after the two loops\<close>

lemma in_signed_image [simp]:
  "(i, s, j) \<in> (\<lambda>p. (fst p, c, snd p)) ` N \<longleftrightarrow> s = c \<and> (i, j) \<in> N"
  by force

lemma tri_state_keys: "tri_state N Q ts \<Longrightarrow> triple_key ` set ts = N \<union> Q"
  by (auto simp: tri_state_def image_Un image_image)

lemma in_tri_state:
  "tri_state N Q ts \<Longrightarrow>
     (i, s, j) \<in> set ts \<longleftrightarrow> (s = -1 \<and> (i, j) \<in> N) \<or> (s = 1 \<and> (i, j) \<in> Q)"
  by (auto simp: tri_state_def)

lemma tri_state_initial: "tri_state (set (index_pairs n)) {} (initial_triples n)"
proof -
  have "initial_triples n = map (\<lambda>p. (fst p, -1, snd p)) (index_pairs n)"
    by (simp add: initial_triples_def case_prod_beta)
  then have "set (initial_triples n) = (\<lambda>p. (fst p, -1, snd p)) ` set (index_pairs n)"
    by simp
  then show ?thesis
    by (simp add: tri_state_def initial_triples_keys distinct_index_pairs)
qed

lemma distinct_map_remove1: "distinct (map f xs) \<Longrightarrow> distinct (map f (remove1 x xs))"
proof -
  assume d: "distinct (map f xs)"
  then have "distinct xs" by (rule distinct_map [THEN iffD1, THEN conjunct1])
  then have "remove1 x xs = filter (\<lambda>y. x \<noteq> y) xs"
    by (simp add: distinct_remove1_removeAll removeAll_filter_not_eq)
  with d show ?thesis by (simp add: distinct_map_filter)
qed

lemma tri_state_remove:
  assumes "tri_state N Q ts" and "(i, j) \<in> N"
  shows "list_remove (i, -1, j) ts = Inr (remove1 (i, -1, j) ts)
       \<and> tri_state (N - {(i, j)}) Q (remove1 (i, -1, j) ts)"
proof -
  have mem: "(i, -1, j) \<in> set ts"
    using assms by (simp add: in_tri_state)
  have d: "distinct ts"
    using assms(1) unfolding tri_state_def by (auto dest: distinct_map [THEN iffD1])
  have "set (remove1 (i, -1, j) ts) = set ts - {(i, -1, j)}"
    using d by simp
  also have "\<dots> = (\<lambda>p. (fst p, -1, snd p)) ` (N - {(i, j)}) \<union> (\<lambda>p. (fst p, 1, snd p)) ` Q"
    using assms(1) unfolding tri_state_def by (auto simp: image_iff)
  finally have "set (remove1 (i, -1, j) ts) =
      (\<lambda>p. (fst p, -1, snd p)) ` (N - {(i, j)}) \<union> (\<lambda>p. (fst p, 1, snd p)) ` Q" .
  moreover have "distinct (map triple_key (remove1 (i, -1, j) ts))"
    using assms(1) by (simp add: tri_state_def distinct_map_remove1)
  moreover have "(N - {(i, j)}) \<inter> Q = {}"
    using assms(1) by (auto simp: tri_state_def)
  ultimately show ?thesis
    using mem by (simp add: tri_state_def list_remove_def)
qed

lemma tri_state_remove_fail:
  assumes "tri_state N Q ts" and "(i, j) \<notin> N"
  shows "list_remove (i, -1, j) ts = Inl (ValueError (i, -1, j))"
  using assms by (simp add: list_remove_def in_tri_state)

lemma tri_state_append:
  assumes "tri_state N Q ts" and "p \<notin> N" and "p \<notin> Q"
  shows "tri_state N (insert p Q) (ts @ [(fst p, 1, snd p)])"
proof -
  have "triple_key (fst p, 1, snd p) \<notin> triple_key ` set ts"
    using assms by (simp add: tri_state_keys)
  then have "distinct (map triple_key (ts @ [(fst p, 1, snd p)]))"
    using assms(1) by (simp add: tri_state_def)
  moreover have "N \<inter> insert p Q = {}"
    using assms by (auto simp: tri_state_def)
  moreover have "set (ts @ [(fst p, 1, snd p)]) =
      (\<lambda>p. (fst p, -1, snd p)) ` N \<union> (\<lambda>p. (fst p, 1, snd p)) ` insert p Q"
    using assms(1) by (auto simp: tri_state_def)
  ultimately show ?thesis by (simp add: tri_state_def)
qed

lemma tri_state_flip:
  assumes "tri_state N Q ts" and "(i, j) \<in> N"
  shows "list_remove (i, -1, j) ts = Inr (remove1 (i, -1, j) ts)
       \<and> tri_state (N - {(i, j)}) (insert (i, j) Q) (remove1 (i, -1, j) ts @ [(i, 1, j)])"
proof -
  from tri_state_remove [OF assms] have r: "list_remove (i, -1, j) ts = Inr (remove1 (i, -1, j) ts)"
    and t: "tri_state (N - {(i, j)}) Q (remove1 (i, -1, j) ts)" by simp_all
  have "(i, j) \<notin> Q" using assms by (auto simp: tri_state_def)
  with tri_state_append [OF t, of "(i, j)"] r show ?thesis by simp
qed

lemma tri_state_organize: "tri_state N Q ts \<Longrightarrow> tri_state N Q (organize ts)"
proof -
  assume t: "tri_state N Q ts"
  have "mset (map triple_key (organize ts)) = mset (map triple_key ts)"
    by (simp add: organize_def)
  then have "distinct (map triple_key (organize ts)) \<longleftrightarrow> distinct (map triple_key ts)"
    by (rule mset_eq_imp_distinct_iff)
  with t show ?thesis by (simp add: tri_state_def organize_def)
qed

lemma adjacency_step_tri:
  assumes t: "tri_state N Q ts" and sub: "adjacency_flips conn (i, j) \<subseteq> N" and ij: "i \<noteq> j"
    and edge: "is_adjacent conn i j \<Longrightarrow> \<exists>d rest. edge_of conn i j = d # rest \<and> d \<noteq> j"
  shows "\<exists>ts'. adjacency_step conn (i, j) ts = Inr ts'
           \<and> tri_state (N - adjacency_flips conn (i, j)) (Q \<union> adjacency_flips conn (i, j)) ts'"
proof (cases "is_adjacent conn i j")
  case False
  with t show ?thesis by (simp add: adjacency_step_def adjacency_flips_def)
next
  case True
  from edge [OF True] obtain d rest where e: "edge_of conn i j = d # rest" and dj: "d \<noteq> j" by blast
  have F: "adjacency_flips conn (i, j) = {(i, d), (j, d), (i, j)}"
    using True e by (simp add: adjacency_flips_def)
  let ?t1 = "remove1 (i, -1, d) ts"
  let ?t2 = "remove1 (j, -1, d) ?t1"
  let ?t3 = "remove1 (i, -1, j) ?t2"
  from sub F have in1: "(i, d) \<in> N" by simp
  from tri_state_remove [OF t in1] have r1: "list_remove (i, -1, d) ts = Inr ?t1"
    and t1: "tri_state (N - {(i, d)}) Q ?t1" by simp_all
  from sub F ij have in2: "(j, d) \<in> N - {(i, d)}" by simp
  from tri_state_remove [OF t1 in2] have r2: "list_remove (j, -1, d) ?t1 = Inr ?t2"
    and t2: "tri_state (N - {(i, d)} - {(j, d)}) Q ?t2" by simp_all
  from sub F ij dj have in3: "(i, j) \<in> N - {(i, d)} - {(j, d)}" by auto
  from tri_state_remove [OF t2 in3] have r3: "list_remove (i, -1, j) ?t2 = Inr ?t3"
    and t3: "tri_state (N - {(i, d)} - {(j, d)} - {(i, j)}) Q ?t3" by simp_all
  have nq: "(i, d) \<notin> Q" "(j, d) \<notin> Q" "(i, j) \<notin> Q"
    using t sub F by (auto simp: tri_state_def)
  let ?N = "N - {(i, d)} - {(j, d)} - {(i, j)}"
  have a1: "tri_state ?N (insert (i, d) Q) (?t3 @ [(i, 1, d)])"
    using tri_state_append [OF t3, of "(i, d)"] nq by simp
  have a2: "tri_state ?N (insert (j, d) (insert (i, d) Q)) ((?t3 @ [(i, 1, d)]) @ [(j, 1, d)])"
    using tri_state_append [OF a1, of "(j, d)"] nq ij by simp
  have a3: "tri_state ?N (insert (i, j) (insert (j, d) (insert (i, d) Q)))
      (((?t3 @ [(i, 1, d)]) @ [(j, 1, d)]) @ [(i, 1, j)])"
    using tri_state_append [OF a2, of "(i, j)"] nq ij dj by simp
  have "?N = N - adjacency_flips conn (i, j)" using F by auto
  moreover have "insert (i, j) (insert (j, d) (insert (i, d) Q)) = Q \<union> adjacency_flips conn (i, j)"
    using F by auto
  ultimately have "tri_state (N - adjacency_flips conn (i, j)) (Q \<union> adjacency_flips conn (i, j))
      (?t3 @ [(i, 1, d), (j, 1, d), (i, 1, j)])"
    using a3 by simp
  moreover have "adjacency_step conn (i, j) ts = Inr (?t3 @ [(i, 1, d), (j, 1, d), (i, 1, j)])"
    using True e r1 r2 r3 by (simp add: adjacency_step_def)
  ultimately show ?thesis by blast
qed

lemma fold_res_tri:
  assumes "distinct ps" and "tri_state N Q ts"
    and "\<forall>p \<in> set ps. fl p \<subseteq> N"
    and "\<forall>p \<in> set ps. \<forall>q \<in> set ps. p \<noteq> q \<longrightarrow> fl p \<inter> fl q = {}"
    and "\<And>p N' Q' ts'. p \<in> set ps \<Longrightarrow> tri_state N' Q' ts' \<Longrightarrow> fl p \<subseteq> N' \<Longrightarrow>
           \<exists>ts''. f p ts' = Inr ts'' \<and> tri_state (N' - fl p) (Q' \<union> fl p) ts''"
  shows "\<exists>ts'. fold_res f ps ts = Inr ts'
           \<and> tri_state (N - \<Union>(fl ` set ps)) (Q \<union> \<Union>(fl ` set ps)) ts'"
  using assms
proof (induction ps arbitrary: N Q ts)
  case Nil
  then show ?case by simp
next
  case (Cons p ps)
  from Cons.prems(5) [of p N Q ts] Cons.prems(2,3) obtain t1 where
    t1: "f p ts = Inr t1" "tri_state (N - fl p) (Q \<union> fl p) t1"
    by auto
  have "\<exists>ts'. fold_res f ps t1 = Inr ts'
      \<and> tri_state (N - fl p - \<Union>(fl ` set ps)) (Q \<union> fl p \<union> \<Union>(fl ` set ps)) ts'"
  proof (rule Cons.IH)
    show "distinct ps" using Cons.prems(1) by simp
    show "tri_state (N - fl p) (Q \<union> fl p) t1" by (rule t1(2))
    show "\<forall>q \<in> set ps. fl q \<subseteq> N - fl p"
    proof
      fix q assume q: "q \<in> set ps"
      with Cons.prems(1) have "p \<noteq> q" by auto
      with Cons.prems(4) q have "fl p \<inter> fl q = {}" by simp
      moreover from Cons.prems(3) q have "fl q \<subseteq> N" by simp
      ultimately show "fl q \<subseteq> N - fl p" by blast
    qed
    show "\<forall>a \<in> set ps. \<forall>q \<in> set ps. a \<noteq> q \<longrightarrow> fl a \<inter> fl q = {}"
      using Cons.prems(4) by simp
    show "\<exists>ts''. f q ts' = Inr ts'' \<and> tri_state (N' - fl q) (Q' \<union> fl q) ts''"
      if "q \<in> set ps" "tri_state N' Q' ts'" "fl q \<subseteq> N'" for q N' Q' ts'
      using Cons.prems(5) [of q N' Q' ts'] that by simp
  qed
  then obtain ts' where ts': "fold_res f ps t1 = Inr ts'"
    "tri_state (N - fl p - \<Union>(fl ` set ps)) (Q \<union> fl p \<union> \<Union>(fl ` set ps)) ts'" by blast
  have "N - fl p - \<Union>(fl ` set ps) = N - \<Union>(fl ` set (p # ps))" by auto
  moreover have "Q \<union> fl p \<union> \<Union>(fl ` set ps) = Q \<union> \<Union>(fl ` set (p # ps))" by auto
  ultimately show ?case using t1(1) ts' by simp
qed

lemma filter_upt_first:
  "filter P [0..<n] = k # rest \<Longrightarrow> k < n \<and> P k \<and> (\<forall>k' < k. \<not> P k')"
proof -
  assume "filter P [0..<n] = k # rest"
  then obtain us vs where uv: "[0..<n] = us @ k # vs" "\<forall>u \<in> set us. \<not> P u" "P k"
    by (auto simp: filter_eq_Cons_iff)
  have "k \<in> set [0..<n]" using uv(1) by (metis in_set_conv_decomp)
  then have kn: "k < n" by simp
  have "\<not> P k'" if "k' < k" for k'
  proof -
    have "sorted_wrt (<) (us @ k # vs)" using uv(1) by (metis sorted_wrt_upt)
    then have "\<forall>u \<in> set (k # vs). k' \<noteq> u"
      using that by (auto simp: sorted_wrt_append)
    moreover have "k' \<in> set (us @ k # vs)"
      using that kn uv(1) by (metis atLeastLessThan_iff set_upt less_trans zero_le)
    ultimately have "k' \<in> set us" by auto
    with uv(2) show ?thesis by simp
  qed
  with kn uv(3) show ?thesis by simp
qed

lemma filter_upt_nonempty: "k < n \<Longrightarrow> P k \<Longrightarrow> filter P [0..<n] \<noteq> []"
  by (auto simp: filter_empty_conv)

lemma edge_of_door_connection:
  "edge_of (door_connection A B m nc) i j = map (\<lambda>k. m + k) (filter (joins A B i j) [0..<nc])"
proof -
  have "joins A B i j = (\<lambda>k. (A k = i \<and> B k = j) \<or> (A k = j \<and> B k = i))"
    by (rule ext) (simp add: joins_def)
  then show ?thesis
    by (simp add: edge_of_def door_connection_def filter_map comp_def)
qed

lemma is_adjacent_door_connection:
  assumes "i < m" "j < m" "i \<noteq> j"
  shows "is_adjacent (door_connection A B m nc) i j \<longleftrightarrow> (\<exists>k < nc. joins A B i j k)"
  using assms
  by (auto simp: is_adjacent_def door_connection_def list_ex_iff in_tuple_def joins_def)

lemma first_join_unique: "first_join A B nc i j k \<Longrightarrow> first_join A B nc i j k' \<Longrightarrow> k = k'"
proof (rule ccontr)
  assume a: "first_join A B nc i j k" and b: "first_join A B nc i j k'" and ne: "k \<noteq> k'"
  from ne have "k < k' \<or> k' < k" by arith
  then show False
  proof
    assume "k < k'"
    with b have "\<not> joins A B i j k" by (simp add: first_join_def)
    with a show False by (simp add: first_join_def)
  next
    assume "k' < k"
    with a have "\<not> joins A B i j k'" by (simp add: first_join_def)
    with b show False by (simp add: first_join_def)
  qed
qed

lemma adjacency_flips_door_connection:
  assumes "i < m" "j < m" "i \<noteq> j"
  shows "adjacency_flips (door_connection A B m nc) (i, j) =
           {x. \<exists>k. first_join A B nc i j k \<and> x \<in> {(i, m + k), (j, m + k), (i, j)}}"
proof (cases "filter (joins A B i j) [0..<nc]")
  case Nil
  then have none: "\<forall>k < nc. \<not> joins A B i j k"
    by (auto simp: filter_empty_conv)
  then have "\<not> is_adjacent (door_connection A B m nc) i j"
    using assms by (simp add: is_adjacent_door_connection)
  then have "adjacency_flips (door_connection A B m nc) (i, j) = {}"
    by (simp add: adjacency_flips_def)
  moreover have "\<not> first_join A B nc i j k" for k
    using none by (auto simp: first_join_def)
  ultimately show ?thesis by simp
next
  case (Cons k0 rest)
  from filter_upt_first [OF Cons] have k0: "first_join A B nc i j k0"
    by (simp add: first_join_def)
  have "\<exists>k < nc. joins A B i j k"
    using k0 unfolding first_join_def by blast
  then have "is_adjacent (door_connection A B m nc) i j"
    using assms by (simp add: is_adjacent_door_connection)
  moreover have "edge_of (door_connection A B m nc) i j = (m + k0) # map (\<lambda>k. m + k) rest"
    by (simp add: edge_of_door_connection Cons)
  ultimately have F: "adjacency_flips (door_connection A B m nc) (i, j) = {(i, m + k0), (j, m + k0), (i, j)}"
    by (simp add: adjacency_flips_def)
  show ?thesis
    unfolding F
  proof (intro equalityI subsetI)
    fix x assume "x \<in> {(i, m + k0), (j, m + k0), (i, j)}"
    with k0 show "x \<in> {x. \<exists>k. first_join A B nc i j k \<and> x \<in> {(i, m + k), (j, m + k), (i, j)}}"
      by blast
  next
    fix x assume "x \<in> {x. \<exists>k. first_join A B nc i j k \<and> x \<in> {(i, m + k), (j, m + k), (i, j)}}"
    then obtain k where k: "first_join A B nc i j k" "x \<in> {(i, m + k), (j, m + k), (i, j)}"
      by blast
    from first_join_unique [OF k(1) k0] k(2) show "x \<in> {(i, m + k0), (j, m + k0), (i, j)}"
      by simp
  qed
qed

lemma first_join_same_pair:
  assumes "first_join A B nc i j k" "first_join A B nc i' j' k" "i < j" "i' < j'"
  shows "i = i' \<and> j = j'"
  using assms unfolding first_join_def joins_def by auto

lemma adjacency_loop_door_connection:
  assumes "m + nc \<le> n"
  shows "\<exists>ts. adjacency_loop m (door_connection A B m nc) (initial_triples n) = Inr ts
           \<and> tri_state
                (set (index_pairs n) - \<Union>(adjacency_flips (door_connection A B m nc) ` set (index_pairs m)))
                (\<Union>(adjacency_flips (door_connection A B m nc) ` set (index_pairs m))) ts"
proof -
  let ?conn = "door_connection A B m nc"
  let ?fl = "adjacency_flips ?conn"
  have fl: "?fl (i, j) = {x. \<exists>k. first_join A B nc i j k \<and> x \<in> {(i, m + k), (j, m + k), (i, j)}}"
    if "(i, j) \<in> set (index_pairs m)" for i j
    using that by (intro adjacency_flips_door_connection) auto
  have sub: "\<forall>p \<in> set (index_pairs m). ?fl p \<subseteq> set (index_pairs n)"
  proof (intro ballI subsetI)
    fix p x assume p: "p \<in> set (index_pairs m)" and x: "x \<in> ?fl p"
    obtain i j where ij: "p = (i, j)" by (cases p)
    with p have "i < j" "j < m" by simp_all
    moreover from x fl [of i j] p ij obtain k where "k < nc" "x \<in> {(i, m + k), (j, m + k), (i, j)}"
      by (auto simp: first_join_def)
    ultimately show "x \<in> set (index_pairs n)"
      using assms by auto
  qed
  have disj: "\<forall>p \<in> set (index_pairs m). \<forall>q \<in> set (index_pairs m). p \<noteq> q \<longrightarrow> ?fl p \<inter> ?fl q = {}"
  proof (intro ballI impI)
    fix p q assume p: "p \<in> set (index_pairs m)" and q: "q \<in> set (index_pairs m)" and pq: "p \<noteq> q"
    obtain i j where ij: "p = (i, j)" by (cases p)
    obtain i' j' where ij': "q = (i', j')" by (cases q)
    from p q ij ij' have lt: "i < j" "j < m" "i' < j'" "j' < m" by simp_all
    show "?fl p \<inter> ?fl q = {}"
    proof (rule ccontr)
      assume "?fl p \<inter> ?fl q \<noteq> {}"
      then obtain x where "x \<in> ?fl p" "x \<in> ?fl q" by blast
      with fl [of i j] fl [of i' j'] p q ij ij' obtain k k' where
        k: "first_join A B nc i j k" "x \<in> {(i, m + k), (j, m + k), (i, j)}"
        and k': "first_join A B nc i' j' k'" "x \<in> {(i', m + k'), (j', m + k'), (i', j')}"
        by auto
      from k(2) k'(2) lt have "(i = i' \<and> j = j') \<or> k = k'" by auto
      with first_join_same_pair [of A B nc i j k i' j'] k(1) k'(1) lt have "i = i' \<and> j = j'"
        by auto
      with pq ij ij' show False by simp
    qed
  qed
  have step: "\<exists>ts''. adjacency_step ?conn p ts' = Inr ts'' \<and> tri_state (N' - ?fl p) (Q' \<union> ?fl p) ts''"
    if "p \<in> set (index_pairs m)" "tri_state N' Q' ts'" "?fl p \<subseteq> N'" for p N' Q' ts'
  proof -
    obtain i j where ij: "p = (i, j)" by (cases p)
    with that(1) have lt: "i < j" "j < m" by simp_all
    have edge: "\<exists>d rest. edge_of ?conn i j = d # rest \<and> d \<noteq> j" if adj: "is_adjacent ?conn i j"
    proof -
      from adj lt obtain k where "k < nc" "joins A B i j k"
        by (auto simp: is_adjacent_door_connection)
      then have "filter (joins A B i j) [0..<nc] \<noteq> []" by (rule filter_upt_nonempty)
      then obtain k0 rest where "filter (joins A B i j) [0..<nc] = k0 # rest"
        by (cases "filter (joins A B i j) [0..<nc]") auto
      then have "edge_of ?conn i j = (m + k0) # map (\<lambda>k. m + k) rest"
        by (simp add: edge_of_door_connection)
      with lt show ?thesis by auto
    qed
    show ?thesis
      unfolding ij
      by (rule adjacency_step_tri [OF that(2)]) (use that(3) ij lt edge in auto)
  qed
  have "\<exists>ts'. fold_res (adjacency_step ?conn) (index_pairs m) (initial_triples n) = Inr ts'
      \<and> tri_state (set (index_pairs n) - \<Union>(?fl ` set (index_pairs m)))
          ({} \<union> \<Union>(?fl ` set (index_pairs m))) ts'"
    by (rule fold_res_tri [OF distinct_index_pairs tri_state_initial sub disj step])
  then show ?thesis by (simp add: adjacency_loop_def)
qed

lemma adjacency_pairs_door_connection:
  "\<Union>(adjacency_flips (door_connection A B m nc) ` set (index_pairs m)) =
     {(i, j) | i j k. i < j \<and> j < m \<and> first_join A B nc i j k}
     \<union> {(i, m + k) | i j k. i \<noteq> j \<and> i < m \<and> j < m \<and> first_join A B nc i j k}"
  (is "?L = ?R")
proof (intro equalityI subsetI)
  fix x assume "x \<in> ?L"
  then obtain i j where ij: "i < j" "j < m" "x \<in> adjacency_flips (door_connection A B m nc) (i, j)"
    by auto
  then obtain k where k: "first_join A B nc i j k" "x \<in> {(i, m + k), (j, m + k), (i, j)}"
    using adjacency_flips_door_connection [of i m j A B nc] by auto
  have sym: "first_join A B nc j i k" using k(1) by (auto simp: first_join_def joins_def)
  from k(2) consider "x = (i, m + k)" | "x = (j, m + k)" | "x = (i, j)" by blast
  then show "x \<in> ?R"
  proof cases
    case 1
    have "\<exists>i' j' k'. x = (i', m + k') \<and> i' \<noteq> j' \<and> i' < m \<and> j' < m \<and> first_join A B nc i' j' k'"
      using 1 ij k(1) by (intro exI [of _ i] exI [of _ j] exI [of _ k]) auto
    then show ?thesis by blast
  next
    case 2
    have "\<exists>i' j' k'. x = (i', m + k') \<and> i' \<noteq> j' \<and> i' < m \<and> j' < m \<and> first_join A B nc i' j' k'"
      using 2 ij sym by (intro exI [of _ j] exI [of _ i] exI [of _ k]) auto
    then show ?thesis by blast
  next
    case 3
    have "\<exists>i' j' k'. x = (i', j') \<and> i' < j' \<and> j' < m \<and> first_join A B nc i' j' k'"
      using 3 ij k(1) by (intro exI [of _ i] exI [of _ j] exI [of _ k]) auto
    then show ?thesis by blast
  qed
next
  fix x assume "x \<in> ?R"
  then consider (pair) i j k where "x = (i, j)" "i < j" "j < m" "first_join A B nc i j k"
    | (door) i j k where "x = (i, m + k)" "i \<noteq> j" "i < m" "j < m" "first_join A B nc i j k"
    by blast
  then show "x \<in> ?L"
  proof cases
    case pair
    then have "x \<in> adjacency_flips (door_connection A B m nc) (i, j)"
      using adjacency_flips_door_connection [of i m j A B nc] by auto
    with pair show ?thesis by (intro UN_I [of "(i, j)"]) simp_all
  next
    case door
    have sym: "first_join A B nc j i k" using door(5) by (auto simp: first_join_def joins_def)
    show ?thesis
    proof (cases "i < j")
      case True
      with door have "x \<in> adjacency_flips (door_connection A B m nc) (i, j)"
        using adjacency_flips_door_connection [of i m j A B nc] by auto
      with True door show ?thesis by (intro UN_I [of "(i, j)"]) simp_all
    next
      case False
      with door have ji: "j < i" by simp
      with door sym have "x \<in> adjacency_flips (door_connection A B m nc) (j, i)"
        using adjacency_flips_door_connection [of j m i A B nc] by auto
      with ji door show ?thesis by (intro UN_I [of "(j, i)"]) simp_all
    qed
  qed
qed

section \<open>Compilation of inputs whose names resolve\<close>

lemma names_resolve_no_dangling:
  assumes "names_resolve r"
  shows "first_dangling r = None"
proof -
  have "room_name_dict r x \<noteq> None" if "x \<in> set (referenced_names r)" for x
  proof -
    from that assms have "x \<in> set (complete_room_list r)"
      by (auto simp: referenced_names_def names_resolve_def list_all_iff)
    moreover have "take (length (modified_room_list r)) (complete_room_list r) = complete_room_list r"
      using assms by (simp add: names_resolve_def)
    ultimately show ?thesis by (simp add: room_name_dict_None_iff)
  qed
  then show ?thesis
    by (simp add: first_dangling_def find_None_iff)
qed

lemma names_resolve_node_index:
  assumes "names_resolve r" and "node_index r x = Some i"
  shows "i < real_nodes_len r \<and> complete_room_list r ! i = x"
proof -
  from assms(2) obtain s where s: "room_name_dict r x = Some s"
    and rd: "room_dict (room_list_ext r) s = Some i"
    by (auto simp: node_index_def split: option.splits)
  from s obtain l where l: "l < length (modified_room_list r)" "complete_room_list r ! l = x"
    "modified_room_list r ! l = s"
    unfolding room_name_dict_Some_iff by blast
  have d: "distinct (room_list_ext r)" using assms(1) by (simp add: names_resolve_def)
  from rd d have i: "i < length (room_list_ext r)" "room_list_ext r ! i = s"
    by (simp_all add: room_dict_distinct)
  have "room_list_ext r ! l = s"
    using l by (simp add: nth_room_list_ext_room real_nodes_len_def)
  moreover have "l < length (room_list_ext r)"
    using l(1) by (simp add: room_list_ext_def)
  ultimately have "i = l"
    using d i nth_eq_iff_index_eq [of "room_list_ext r" i l] by simp
  with l show ?thesis by (simp add: real_nodes_len_def)
qed

lemma names_resolve_node_index_ex:
  assumes "names_resolve r" and "x \<in> set (referenced_names r)"
  shows "\<exists>i. node_index r x = Some i"
proof -
  from first_dangling_None(3) [OF names_resolve_no_dangling [OF assms(1)] assms(2)]
  obtain s where s: "room_name_dict r x = Some s" by blast
  with room_dict_std_name [OF s] show ?thesis by (simp add: node_index_def)
qed

lemma connection_names_referenced:
  "k < length (connection r) \<Longrightarrow>
     fst (connection r ! k) \<in> set (referenced_names r) \<and> snd (connection r ! k) \<in> set (referenced_names r)"
proof -
  assume "k < length (connection r)"
  then have "connection r ! k \<in> set (connection r)" by simp
  then show ?thesis by (auto simp: referenced_names_def)
qed

lemma front_door_names_referenced:
  "k < length (front_door r) \<Longrightarrow> front_door r ! k \<in> set (referenced_names r)"
  by (simp add: referenced_names_def)

lemma enumerate1_eq: "enumerate1 xs = map (\<lambda>k. (Suc k, xs ! k)) [0..<length xs]"
  by (rule nth_equalityI) (simp_all add: enumerate1_def del: upt_Suc)

lemma distinct_enumerate1: "distinct (enumerate1 xs)"
  unfolding enumerate1_eq by (simp add: distinct_map inj_on_def del: upt_Suc)

lemma front_door_step_tri:
  assumes "tri_state N Q ts" and "rd room = Some x" and "rd (''front_door'' @ str i) = Some f"
    and "(x, f) \<in> N"
  shows "\<exists>ts'. front_door_step rd (i, room) ts = Inr ts'
           \<and> tri_state (N - {(x, f)}) (Q \<union> {(x, f)}) ts'"
proof -
  from tri_state_flip [OF assms(1,4)]
  have "list_remove (x, -1, f) ts = Inr (remove1 (x, -1, f) ts)"
    and "tri_state (N - {(x, f)}) (insert (x, f) Q) (remove1 (x, -1, f) ts @ [(x, 1, f)])"
    by simp_all
  then show ?thesis
    using assms(2,3) by (simp add: front_door_step_def getitem_Some)
qed

lemma front_door_loop_tri:
  assumes t: "tri_state N Q ts"
    and look: "\<forall>k < length fd. rd (fd ! k) = Some (X k)
                 \<and> rd (''front_door'' @ str (Suc k)) = Some (F k)"
    and mem: "\<forall>k < length fd. (X k, F k) \<in> N"
    and inj: "\<forall>k < length fd. \<forall>k' < length fd. F k = F k' \<longrightarrow> k = k'"
  shows "\<exists>ts'. front_door_loop rd fd ts = Inr ts'
           \<and> tri_state (N - {(X k, F k) | k. k < length fd})
                (Q \<union> {(X k, F k) | k. k < length fd}) ts'"
proof -
  let ?fl = "\<lambda>p. {(the (rd (snd p)), the (rd (''front_door'' @ str (fst p))))}"
  have el: "\<exists>k < length fd. p = (Suc k, fd ! k)" if "p \<in> set (enumerate1 fd)" for p
    using that unfolding enumerate1_eq by (auto simp del: upt_Suc)
  have flk: "?fl (Suc k, fd ! k) = {(X k, F k)}" if "k < length fd" for k
    using look that by simp
  have sub: "\<forall>p \<in> set (enumerate1 fd). ?fl p \<subseteq> N"
  proof
    fix p assume "p \<in> set (enumerate1 fd)"
    from el [OF this] obtain k where k: "k < length fd" "p = (Suc k, fd ! k)" by blast
    with flk [of k] mem show "?fl p \<subseteq> N" by simp
  qed
  have disj: "\<forall>p \<in> set (enumerate1 fd). \<forall>q \<in> set (enumerate1 fd). p \<noteq> q \<longrightarrow> ?fl p \<inter> ?fl q = {}"
  proof (intro ballI impI)
    fix p q assume p: "p \<in> set (enumerate1 fd)" and q: "q \<in> set (enumerate1 fd)" and ne: "p \<noteq> q"
    from el [OF p] obtain k where k: "k < length fd" "p = (Suc k, fd ! k)" by blast
    from el [OF q] obtain k' where k': "k' < length fd" "q = (Suc k', fd ! k')" by blast
    from ne k k' have "k \<noteq> k'" by auto
    with inj k(1) k'(1) have "F k \<noteq> F k'" by blast
    with flk [OF k(1)] flk [OF k'(1)] k(2) k'(2) show "?fl p \<inter> ?fl q = {}" by simp
  qed
  have step: "\<exists>ts''. front_door_step rd p ts' = Inr ts'' \<and> tri_state (N' - ?fl p) (Q' \<union> ?fl p) ts''"
    if "p \<in> set (enumerate1 fd)" "tri_state N' Q' ts'" "?fl p \<subseteq> N'" for p N' Q' ts'
  proof -
    from el [OF that(1)] obtain k where k: "k < length fd" "p = (Suc k, fd ! k)" by blast
    from look k(1) have l: "rd (fd ! k) = Some (X k)" "rd (''front_door'' @ str (Suc k)) = Some (F k)"
      by simp_all
    have inN: "(X k, F k) \<in> N'" using that(3) flk [OF k(1)] k(2) by simp
    from front_door_step_tri [OF that(2) l inN] flk [OF k(1)] k(2) show ?thesis by simp
  qed
  have un: "\<Union>(?fl ` set (enumerate1 fd)) = {(X k, F k) | k. k < length fd}"
  proof (intro equalityI subsetI)
    fix x assume "x \<in> \<Union>(?fl ` set (enumerate1 fd))"
    then obtain p where p: "p \<in> set (enumerate1 fd)" "x \<in> ?fl p" by blast
    from el [OF p(1)] obtain k where k: "k < length fd" "p = (Suc k, fd ! k)" by blast
    with p(2) flk [OF k(1)] have "x = (X k, F k)" by simp
    with k(1) show "x \<in> {(X k, F k) | k. k < length fd}" by blast
  next
    fix x assume "x \<in> {(X k, F k) | k. k < length fd}"
    then obtain k where k: "k < length fd" "x = (X k, F k)" by blast
    have "(Suc k, fd ! k) \<in> set (enumerate1 fd)"
      using k(1) unfolding enumerate1_eq by (auto simp del: upt_Suc)
    moreover have "x \<in> ?fl (Suc k, fd ! k)" using flk [OF k(1)] k(2) by simp
    ultimately show "x \<in> \<Union>(?fl ` set (enumerate1 fd))" by blast
  qed
  from fold_res_tri [OF distinct_enumerate1 t sub disj step]
  show ?thesis unfolding front_door_loop_def un by simp
qed

lemma names_resolve_positive_pairs:
  assumes nr: "names_resolve r"
    and A: "\<forall>k < length (connection r). node_index r (fst (connection r ! k)) = Some (A k)"
    and B: "\<forall>k < length (connection r). node_index r (snd (connection r ! k)) = Some (B k)"
    and X: "\<forall>k < length (front_door r). node_index r (front_door r ! k) = Some (X k)"
  shows "positive_pairs r =
     ({(i, j) | i j k. i < j \<and> j < real_nodes_len r \<and> first_join A B (length (connection r)) i j k}
      \<union> {(i, real_nodes_len r + k) | i j k. i \<noteq> j \<and> i < real_nodes_len r \<and> j < real_nodes_len r
            \<and> first_join A B (length (connection r)) i j k})
     \<union> {(X k, front_door_node r k) | k. k < length (front_door r)}"
proof -
  let ?nc = "length (connection r)" and ?m = "real_nodes_len r"
  have dj: "declares r k i j \<longleftrightarrow> k < ?nc \<and> joins A B i j k" for k i j
    using A B by (auto simp: declares_def joins_def)
  have fj: "first_declares r k i j \<longleftrightarrow> first_join A B ?nc i j k" for k i j
  proof
    assume "first_declares r k i j"
    then show "first_join A B ?nc i j k"
      unfolding first_declares_def first_join_def dj by auto
  next
    assume "first_join A B ?nc i j k"
    then show "first_declares r k i j"
      unfolding first_declares_def first_join_def dj by auto
  qed
  have bound: "i < ?m \<and> j < ?m" if "first_join A B ?nc i j k" for i j k
  proof -
    from that have k: "k < ?nc" "joins A B i j k" by (simp_all add: first_join_def)
    from A B k(1) have "A k < ?m" "B k < ?m"
      using names_resolve_node_index [OF nr] by blast+
    with k(2) show ?thesis by (auto simp: joins_def)
  qed
  have 1: "{(i, j) | i j k. i < j \<and> first_declares r k i j} =
      {(i, j) | i j k. i < j \<and> j < ?m \<and> first_join A B ?nc i j k}"
    unfolding fj using bound by blast
  have 2: "{(i, interior_door_node r k) | i j k. i \<noteq> j \<and> first_declares r k i j} =
      {(i, ?m + k) | i j k. i \<noteq> j \<and> i < ?m \<and> j < ?m \<and> first_join A B ?nc i j k}"
    unfolding fj interior_door_node_def using bound by blast
  have 3: "{(i, front_door_node r k) | i k.
          k < length (front_door r) \<and> node_index r (front_door r ! k) = Some i} =
      {(X k, front_door_node r k) | k. k < length (front_door r)}"
    using X by auto
  show ?thesis
    unfolding positive_pairs_def 1 2 3 ..
qed

lemma names_resolve_compiles:
  assumes nr: "names_resolve r"
  shows "\<exists>g. generate_bubble_diagram r = Inr g
           \<and> tri_state (set (index_pairs (node_count r)) - positive_pairs r) (positive_pairs r)
                (graph_edges g)
           \<and> node_codes g = room_list_indices (room_list_ext r)
           \<and> room_names g = room_list_ext r"
proof -
  let ?m = "real_nodes_len r" and ?nc = "length (connection r)" and ?nf = "length (front_door r)"
  let ?n = "node_count r" and ?rd = "room_dict (room_list_ext r)"
  define A where "A k = the (node_index r (fst (connection r ! k)))" for k
  define B where "B k = the (node_index r (snd (connection r ! k)))" for k
  define X where "X k = the (node_index r (front_door r ! k))" for k
  let ?fd = "map (\<lambda>name. the (room_name_dict r name)) (front_door r)"
  let ?F = "front_door_node r"
  note nd = names_resolve_no_dangling [OF nr]
  have A: "\<forall>k < ?nc. node_index r (fst (connection r ! k)) = Some (A k)"
    using names_resolve_node_index_ex [OF nr] connection_names_referenced [of _ r]
    by (fastforce simp: A_def)
  have B: "\<forall>k < ?nc. node_index r (snd (connection r ! k)) = Some (B k)"
    using names_resolve_node_index_ex [OF nr] connection_names_referenced [of _ r]
    by (fastforce simp: B_def)
  have X: "\<forall>k < ?nf. node_index r (front_door r ! k) = Some (X k)"
    using names_resolve_node_index_ex [OF nr] front_door_names_referenced [of _ r]
    by (fastforce simp: X_def)
  have Xm: "X k < ?m" if "k < ?nf" for k
    using X that names_resolve_node_index [OF nr] by blast
  have mn: "?m + ?nc \<le> ?n" "?n = ?m + ?nc + ?nf"
    by (simp_all add: node_count_def real_nodes_len_def)
  have iconn: "index_connection ?rd
      (named_connection (map (\<lambda>pair. (the (room_name_dict r (fst pair)),
                                       the (room_name_dict r (snd pair)))) (connection r)))
      = Inr (door_connection A B ?m ?nc)"
    unfolding index_connection_no_dangling [OF nd] door_connection_def
    by (simp add: A_def B_def interior_door_node_def)
  let ?Qa = "\<Union>(adjacency_flips (door_connection A B ?m ?nc) ` set (index_pairs ?m))"
  from adjacency_loop_door_connection [OF mn(1), of A B] obtain t1 where
    t1: "adjacency_loop ?m (door_connection A B ?m ?nc) (initial_triples ?n) = Inr t1"
    and s1: "tri_state (set (index_pairs ?n) - ?Qa) ?Qa t1" by blast
  have Qa: "?Qa = {(i, j) | i j k. i < j \<and> j < ?m \<and> first_join A B ?nc i j k}
     \<union> {(i, ?m + k) | i j k. i \<noteq> j \<and> i < ?m \<and> j < ?m \<and> first_join A B ?nc i j k}"
    by (rule adjacency_pairs_door_connection)
  have small: "j < ?m + ?nc" if "(i, j) \<in> ?Qa" for i j
    using that unfolding Qa by (auto simp: first_join_def)
  have look: "\<forall>k < length ?fd. ?rd (?fd ! k) = Some (X k)
      \<and> ?rd (''front_door'' @ str (Suc k)) = Some (?F k)"
  proof (intro allI impI)
    fix k assume "k < length ?fd"
    then have k: "k < ?nf" by simp
    from X k have "node_index r (front_door r ! k) = Some (X k)" by simp
    then have "?rd (the (room_name_dict r (front_door r ! k))) = Some (X k)"
      by (auto simp: node_index_def split: option.splits)
    with k room_dict_front_door [OF k]
    show "?rd (?fd ! k) = Some (X k) \<and> ?rd (''front_door'' @ str (Suc k)) = Some (?F k)"
      by simp
  qed
  have mem: "\<forall>k < length ?fd. (X k, ?F k) \<in> set (index_pairs ?n) - ?Qa"
  proof (intro allI impI)
    fix k assume "k < length ?fd"
    then have k: "k < ?nf" by simp
    have "(X k, ?F k) \<in> set (index_pairs ?n)"
      using Xm [OF k] k mn by (simp add: front_door_node_def)
    moreover have "(X k, ?F k) \<notin> ?Qa"
      using small [of "X k" "?F k"] by (auto simp: front_door_node_def)
    ultimately show "(X k, ?F k) \<in> set (index_pairs ?n) - ?Qa" by simp
  qed
  have inj: "\<forall>k < length ?fd. \<forall>k' < length ?fd. ?F k = ?F k' \<longrightarrow> k = k'"
    by (simp add: front_door_node_def)
  let ?Qf = "{(X k, ?F k) | k. k < length ?fd}"
  from front_door_loop_tri [OF s1 look mem inj] obtain t2 where
    t2: "front_door_loop ?rd ?fd t1 = Inr t2"
    and s2: "tri_state (set (index_pairs ?n) - ?Qa - ?Qf) (?Qa \<union> ?Qf) t2" by blast
  have pp: "positive_pairs r = ?Qa \<union> ?Qf"
    unfolding names_resolve_positive_pairs [OF nr A B X] Qa by simp
  have "set (index_pairs ?n) - ?Qa - ?Qf = set (index_pairs ?n) - positive_pairs r"
    unfolding pp by blast
  with s2 pp have "tri_state (set (index_pairs ?n) - positive_pairs r) (positive_pairs r) t2"
    by simp
  then have s3: "tri_state (set (index_pairs ?n) - positive_pairs r) (positive_pairs r) (organize t2)"
    by (rule tri_state_organize)
  have "generate_bubble_diagram r =
      Inr \<lparr> node_codes = room_list_indices (room_list_ext r), graph_edges = organize t2,
            name_dict = room_name_dict r, room_names = room_list_ext r \<rparr>"
    unfolding generate_bubble_diagram_def
    by (simp add: first_dangling_None(1,2) [OF nd] Let_def iconn length_room_list_ext t1 t2)
  with s3 show ?thesis by simp
qed

section \<open>Declared connections and front doors\<close>

lemma declares_sym: "declares r k i j \<Longrightarrow> declares r k j i"
  by (auto simp: declares_def)

lemma first_declares_sym: "first_declares r k i j \<Longrightarrow> first_declares r k j i"
  unfolding first_declares_def by (auto dest: declares_sym)

lemma declares_names:
  assumes "names_resolve r" and "declares r k i j"
  shows "k < length (connection r) \<and> i < real_nodes_len r \<and> j < real_nodes_len r
       \<and> {fst (connection r ! k), snd (connection r ! k)}
           = {complete_room_list r ! i, complete_room_list r ! j}"
  using assms(2) names_resolve_node_index [OF assms(1)]
  unfolding declares_def by fastforce

lemma well_formed_declares_unique:
  assumes wf: "well_formed r" and "declares r k i j" and "declares r k' i j"
  shows "k = k'"
proof -
  from wf have nr: "names_resolve r"
    and d: "distinct (map (\<lambda>pair. {fst pair, snd pair}) (connection r))"
    by (simp_all add: well_formed_def)
  from declares_names [OF nr assms(2)] declares_names [OF nr assms(3)]
  have k: "k < length (connection r)" "k' < length (connection r)"
    and eq: "{fst (connection r ! k), snd (connection r ! k)}
        = {fst (connection r ! k'), snd (connection r ! k')}"
    by simp_all
  from eq k have "map (\<lambda>pair. {fst pair, snd pair}) (connection r) ! k
      = map (\<lambda>pair. {fst pair, snd pair}) (connection r) ! k'"
    by simp
  moreover have "k < length (map (\<lambda>pair. {fst pair, snd pair}) (connection r))"
    "k' < length (map (\<lambda>pair. {fst pair, snd pair}) (connection r))"
    using k by simp_all
  ultimately show ?thesis
    using d nth_eq_iff_index_eq [of "map (\<lambda>pair. {fst pair, snd pair}) (connection r)" k k']
    by blast
qed

lemma well_formed_first_declares:
  assumes "well_formed r" and "declares r k i j"
  shows "first_declares r k i j"
  unfolding first_declares_def
  using assms well_formed_declares_unique [OF assms(1)] by blast

lemma in_positive_pairs_rooms:
  assumes nr: "names_resolve r" and "i < j" and "j < real_nodes_len r"
  shows "(i, j) \<in> positive_pairs r \<longleftrightarrow> (\<exists>k. first_declares r k i j)"
proof
  assume "(i, j) \<in> positive_pairs r"
  then consider (a) k where "first_declares r k i j"
    | (b) k where "j = interior_door_node r k"
    | (c) k where "j = front_door_node r k"
    unfolding positive_pairs_def by blast
  then show "\<exists>k. first_declares r k i j"
  proof cases
    case a then show ?thesis by blast
  next
    case b with assms(3) show ?thesis by (simp add: interior_door_node_def)
  next
    case c with assms(3) show ?thesis by (simp add: front_door_node_def)
  qed
next
  assume "\<exists>k. first_declares r k i j"
  with assms(2) show "(i, j) \<in> positive_pairs r"
    unfolding positive_pairs_def by blast
qed

lemma in_positive_pairs_interior:
  assumes nr: "names_resolve r" and k: "k < length (connection r)"
  shows "(x, interior_door_node r k) \<in> positive_pairs r
           \<longleftrightarrow> (\<exists>j. x \<noteq> j \<and> first_declares r k x j)"
proof
  assume "(x, interior_door_node r k) \<in> positive_pairs r"
  then consider (a) k' where "first_declares r k' x (interior_door_node r k)"
    | (b) j k' where "x \<noteq> j" "first_declares r k' x j" "interior_door_node r k = interior_door_node r k'"
    | (c) k' where "k' < length (front_door r)" "interior_door_node r k = front_door_node r k'"
    unfolding positive_pairs_def by blast
  then show "\<exists>j. x \<noteq> j \<and> first_declares r k x j"
  proof cases
    case a
    then have "declares r k' x (interior_door_node r k)" by (simp add: first_declares_def)
    from declares_names [OF nr this] show ?thesis by (simp add: interior_door_node_def)
  next
    case b
    then have "k' = k" by (simp add: interior_door_node_def)
    with b show ?thesis by blast
  next
    case c with k show ?thesis by (simp add: interior_door_node_def front_door_node_def)
  qed
next
  assume "\<exists>j. x \<noteq> j \<and> first_declares r k x j"
  then show "(x, interior_door_node r k) \<in> positive_pairs r"
    unfolding positive_pairs_def by blast
qed

lemma in_positive_pairs_front:
  assumes nr: "names_resolve r" and k: "k < length (front_door r)"
  shows "(x, front_door_node r k) \<in> positive_pairs r
           \<longleftrightarrow> node_index r (front_door r ! k) = Some x"
proof
  assume "(x, front_door_node r k) \<in> positive_pairs r"
  then consider (a) k' where "first_declares r k' x (front_door_node r k)"
    | (b) j k' where "first_declares r k' x j" "front_door_node r k = interior_door_node r k'"
    | (c) k' where "k' < length (front_door r)" "node_index r (front_door r ! k') = Some x"
        "front_door_node r k = front_door_node r k'"
    unfolding positive_pairs_def by blast
  then show "node_index r (front_door r ! k) = Some x"
  proof cases
    case a
    then have "declares r k' x (front_door_node r k)" by (simp add: first_declares_def)
    from declares_names [OF nr this] show ?thesis by (simp add: front_door_node_def)
  next
    case b
    then have "declares r k' x j" by (simp add: first_declares_def)
    from declares_names [OF nr this] b(2) show ?thesis
      by (simp add: front_door_node_def interior_door_node_def)
  next
    case c
    then have "k' = k" by (simp add: front_door_node_def)
    with c show ?thesis by simp
  qed
next
  assume "node_index r (front_door r ! k) = Some x"
  with k show "(x, front_door_node r k) \<in> positive_pairs r"
    unfolding positive_pairs_def by blast
qed

lemma compiled_positive_iff:
  assumes "tri_state (set (index_pairs n) - P) P es"
  shows "(i, 1, j) \<in> set es \<longleftrightarrow> (i, j) \<in> P"
    and "(i, -1, j) \<in> set es \<longleftrightarrow> i < j \<and> j < n \<and> (i, j) \<notin> P"
  using in_tri_state [OF assms, of i 1 j] in_tri_state [OF assms, of i "-1" j]
  by auto

text \<open>
  Claim C1: for every well-formed input and every declared connection between rooms \<open>a\<close>
  and \<open>b\<close>, the compiled graph contains exactly one interior-door node \<open>d\<close> such that the
  edges for the pairs \<open>(a, d)\<close>, \<open>(d, b)\<close> and \<open>(a, b)\<close> all carry polarity \<open>+1\<close>; it is the
  door node synthesized for that connection. No pair of nodes carries \<open>+1\<close> unless a
  connection or a front-door entry declares it: the \<open>+1\<close> edges of the graph are exactly
  the pairs of \<open>positive_pairs\<close>.
\<close>

theorem declared_connection_has_one_door:
  assumes wf: "well_formed r" and ab: "(a, b) \<in> set (connection r)"
  shows "\<exists>g ia ib k. generate_bubble_diagram r = Inr g
      \<and> node_index r a = Some ia \<and> node_index r b = Some ib
      \<and> ia < real_nodes_len r \<and> ib < real_nodes_len r \<and> ia \<noteq> ib
      \<and> k < length (connection r) \<and> connection r ! k = (a, b)
      \<and> room_names g ! interior_door_node r k = ''interior_door'' @ str (Suc k)
      \<and> signed_edge (graph_edges g) ia 1 (interior_door_node r k)
      \<and> signed_edge (graph_edges g) (interior_door_node r k) 1 ib
      \<and> signed_edge (graph_edges g) ia 1 ib
      \<and> (\<exists>!d. real_nodes_len r \<le> d \<and> d < real_nodes_len r + length (connection r)
             \<and> signed_edge (graph_edges g) ia 1 d \<and> signed_edge (graph_edges g) d 1 ib
             \<and> signed_edge (graph_edges g) ia 1 ib)
      \<and> (\<forall>i j. (i, 1, j) \<in> set (graph_edges g) \<longleftrightarrow> (i, j) \<in> positive_pairs r)"
proof -
  let ?m = "real_nodes_len r" and ?nc = "length (connection r)"
  from wf have nr: "names_resolve r"
    and loops: "list_all (\<lambda>pair. fst pair \<noteq> snd pair) (connection r)"
    by (simp_all add: well_formed_def)
  from names_resolve_compiles [OF nr] obtain g where
    g: "generate_bubble_diagram r = Inr g"
    and ts: "tri_state (set (index_pairs (node_count r)) - positive_pairs r) (positive_pairs r)
               (graph_edges g)"
    and names: "room_names g = room_list_ext r" by blast
  let ?es = "graph_edges g"
  note pos = compiled_positive_iff(1) [OF ts]
  from ab obtain k where k: "k < ?nc" "connection r ! k = (a, b)"
    by (auto simp: in_set_conv_nth)
  from ab loops have ne: "a \<noteq> b" by (auto simp: list_all_iff)
  from ab have "a \<in> set (referenced_names r)" "b \<in> set (referenced_names r)"
    by (force simp: referenced_names_def)+
  then obtain ia ib where ia: "node_index r a = Some ia" and ib: "node_index r b = Some ib"
    using names_resolve_node_index_ex [OF nr] by blast
  from names_resolve_node_index [OF nr ia] names_resolve_node_index [OF nr ib] ne
  have lt: "ia < ?m" "ib < ?m" and iab: "ia \<noteq> ib" by auto
  have dec: "declares r k ia ib"
    using k ia ib by (simp add: declares_def)
  then have fd: "first_declares r k ia ib" "first_declares r k ib ia"
    using well_formed_first_declares [OF wf] declares_sym by blast+
  let ?d = "interior_door_node r k"
  have dgt: "ia < ?d" "ib < ?d" using lt by (simp_all add: interior_door_node_def)
  have e1: "signed_edge ?es ia 1 ?d"
    using in_positive_pairs_interior [OF nr k(1), of ia] fd(1) iab dgt
    by (auto simp: signed_edge_def pos min_def max_def)
  have e2: "signed_edge ?es ?d 1 ib"
    using in_positive_pairs_interior [OF nr k(1), of ib] fd(2) iab dgt
    by (auto simp: signed_edge_def pos min_def max_def)
  have e3: "signed_edge ?es ia 1 ib"
  proof (cases "ia < ib")
    case True
    with in_positive_pairs_rooms [OF nr True lt(2)] fd(1) show ?thesis
      by (auto simp: signed_edge_def pos min_def max_def)
  next
    case False
    with iab have lt': "ib < ia" by simp
    with in_positive_pairs_rooms [OF nr lt' lt(1)] fd(2) show ?thesis
      by (auto simp: signed_edge_def pos min_def max_def)
  qed
  have range: "?m \<le> ?d" "?d < ?m + ?nc" using k(1) by (simp_all add: interior_door_node_def)
  have uniq: "d = ?d" if d: "?m \<le> d" "d < ?m + ?nc" "signed_edge ?es ia 1 d" "signed_edge ?es d 1 ib" for d
  proof -
    define k' where "k' = d - ?m"
    have k': "k' < ?nc" "d = interior_door_node r k'"
      using d(1,2) by (simp_all add: k'_def interior_door_node_def)
    have "ia < d" "ib < d" using lt d(1) by simp_all
    with d(3,4) have "(ia, d) \<in> positive_pairs r" "(ib, d) \<in> positive_pairs r"
      by (simp_all add: signed_edge_def pos min_def max_def)
    with in_positive_pairs_interior [OF nr k'(1)] k'(2)
    obtain j j' where j: "first_declares r k' ia j" and j': "first_declares r k' ib j'"
      by auto
    then have "declares r k' ia j" "declares r k' ib j'"
      by (simp_all add: first_declares_def)
    with iab have "declares r k' ia ib"
      by (auto simp: declares_def)
    from well_formed_declares_unique [OF wf this dec] k'(2) show ?thesis by simp
  qed
  have ex1: "\<exists>!d. ?m \<le> d \<and> d < ?m + ?nc \<and> signed_edge ?es ia 1 d \<and> signed_edge ?es d 1 ib
      \<and> signed_edge ?es ia 1 ib"
  proof (rule ex1I [of _ ?d])
    show "?m \<le> ?d \<and> ?d < ?m + ?nc \<and> signed_edge ?es ia 1 ?d \<and> signed_edge ?es ?d 1 ib
      \<and> signed_edge ?es ia 1 ib"
      using range e1 e2 e3 by simp
  next
    fix d assume "?m \<le> d \<and> d < ?m + ?nc \<and> signed_edge ?es ia 1 d \<and> signed_edge ?es d 1 ib
      \<and> signed_edge ?es ia 1 ib"
    then show "d = ?d" using uniq by blast
  qed
  have nm: "room_names g ! ?d = ''interior_door'' @ str (Suc k)"
    using k(1) by (simp only: names nth_room_list_ext_interior)
  from g ia ib lt iab k nm e1 e2 e3 ex1 pos show ?thesis
    by blast
qed

lemma scenario_well_formed: "well_formed scenario"
  by (simp add: well_formed_def names_resolve_def scenario_def room_list_ext_def
      interior_door_list_def front_door_list_def str.simps digit_char_def)

lemma scenario_node_index:
  "node_index scenario ''kitchen1'' = Some 0" "node_index scenario ''bedroom1'' = Some 1"
  by code_simp+

theorem declared_connection_has_one_door_witness:
  "\<exists>g. generate_bubble_diagram scenario = Inr g
     \<and> signed_edge (graph_edges g) 0 1 2 \<and> signed_edge (graph_edges g) 2 1 1
     \<and> signed_edge (graph_edges g) 0 1 1"
proof -
  have mem: "(''kitchen1'', ''bedroom1'') \<in> set (connection scenario)"
    by (simp add: scenario_def)
  from declared_connection_has_one_door [OF scenario_well_formed mem]
  obtain g ia ib k where g: "generate_bubble_diagram scenario = Inr g"
    and ia: "node_index scenario ''kitchen1'' = Some ia"
    and ib: "node_index scenario ''bedroom1'' = Some ib"
    and k: "k < length (connection scenario)"
    and e: "signed_edge (graph_edges g) ia 1 (interior_door_node scenario k)"
      "signed_edge (graph_edges g) (interior_door_node scenario k) 1 ib"
      "signed_edge (graph_edges g) ia 1 ib"
    by blast
  from k have "k = 0" by (simp add: scenario_def)
  then have "interior_door_node scenario k = 2"
    by (simp add: interior_door_node_def real_nodes_len_def scenario_def)
  with e ia ib g show ?thesis
    by (auto simp: scenario_node_index)
qed

text \<open>
  Claim C3: for every well-formed input (it is enough that the names resolve) and every
  entry of the \<open>front_door\<close> list, the compiled graph contains exactly one node dedicated
  to that entry, the node named after the entry's number; its edge to the entry's room
  carries polarity \<open>+1\<close>, and every other edge at that node carries polarity \<open>-1\<close>.
\<close>

theorem front_door_entry_has_dedicated_node:
  assumes nr: "names_resolve r" and k: "k < length (front_door r)"
  shows "\<exists>g x. generate_bubble_diagram r = Inr g
      \<and> node_index r (front_door r ! k) = Some x \<and> x < real_nodes_len r
      \<and> front_door_node r k < node_count r
      \<and> room_names g ! front_door_node r k = ''front_door'' @ str (Suc k)
      \<and> (\<exists>!f. f < node_count r \<and> room_names g ! f = ''front_door'' @ str (Suc k))
      \<and> signed_edge (graph_edges g) x 1 (front_door_node r k)
      \<and> (\<forall>y < node_count r. y \<noteq> x \<and> y \<noteq> front_door_node r k
            \<longrightarrow> signed_edge (graph_edges g) y (-1) (front_door_node r k))"
proof -
  let ?m = "real_nodes_len r" and ?nc = "length (connection r)" and ?n = "node_count r"
  let ?f = "front_door_node r k"
  from names_resolve_compiles [OF nr] obtain g where
    g: "generate_bubble_diagram r = Inr g"
    and ts: "tri_state (set (index_pairs ?n) - positive_pairs r) (positive_pairs r) (graph_edges g)"
    and names: "room_names g = room_list_ext r" by blast
  let ?es = "graph_edges g"
  note pos = compiled_positive_iff(1) [OF ts] and neg = compiled_positive_iff(2) [OF ts]
  from names_resolve_node_index_ex [OF nr front_door_names_referenced [OF k]]
  obtain x where x: "node_index r (front_door r ! k) = Some x" by blast
  from names_resolve_node_index [OF nr x] have xm: "x < ?m" by simp
  have fn: "?f < ?n" "?m + ?nc \<le> ?f"
    using k by (simp_all add: front_door_node_def node_count_def real_nodes_len_def)
  have nm: "room_names g ! ?f = ''front_door'' @ str (Suc k)"
    using k by (simp only: names nth_room_list_ext_front)
  have d: "distinct (room_list_ext r)" using nr by (simp add: names_resolve_def)
  have ex1: "\<exists>!f. f < ?n \<and> room_names g ! f = ''front_door'' @ str (Suc k)"
  proof (rule ex1I [of _ ?f])
    show "?f < ?n \<and> room_names g ! ?f = ''front_door'' @ str (Suc k)" using fn nm by simp
  next
    fix f assume f: "f < ?n \<and> room_names g ! f = ''front_door'' @ str (Suc k)"
    then have "room_list_ext r ! f = room_list_ext r ! ?f" using nm names by simp
    with d f fn(1) show "f = ?f"
      using nth_eq_iff_index_eq [of "room_list_ext r" f ?f] by (simp add: length_room_list_ext)
  qed
  have e1: "signed_edge ?es x 1 ?f"
    using in_positive_pairs_front [OF nr k, of x] x xm fn
    by (auto simp: signed_edge_def pos min_def max_def)
  have others: "signed_edge ?es y (-1) ?f" if y: "y < ?n" "y \<noteq> x" "y \<noteq> ?f" for y
  proof (cases "y < ?f")
    case True
    have "(y, ?f) \<notin> positive_pairs r"
      using in_positive_pairs_front [OF nr k, of y] x y(2) by simp
    with True fn(1) show ?thesis
      by (simp add: signed_edge_def neg min_def max_def)
  next
    case False
    with y(3) have gt: "?f < y" by simp
    define k' where "k' = y - ?m - ?nc"
    have k': "k' < length (front_door r)" "y = front_door_node r k'"
      using gt y(1) fn(2)
      by (simp_all add: k'_def front_door_node_def node_count_def real_nodes_len_def)
    have "(?f, y) \<notin> positive_pairs r"
    proof
      assume "(?f, y) \<in> positive_pairs r"
      with in_positive_pairs_front [OF nr k'(1), of ?f] k'(2)
      have "node_index r (front_door r ! k') = Some ?f" by simp
      from names_resolve_node_index [OF nr this] fn(2) show False by simp
    qed
    with gt y(1) show ?thesis
      by (simp add: signed_edge_def neg min_def max_def)
  qed
  from g x xm fn(1) nm ex1 e1 others show ?thesis by blast
qed

theorem front_door_entry_has_dedicated_node_witness:
  "\<exists>g. generate_bubble_diagram scenario = Inr g
     \<and> room_names g ! 3 = ''front_door1''
     \<and> signed_edge (graph_edges g) 0 1 3 \<and> signed_edge (graph_edges g) 1 (-1) 3
     \<and> signed_edge (graph_edges g) 2 (-1) 3"
proof -
  have nr: "names_resolve scenario"
    using scenario_well_formed by (simp add: well_formed_def)
  have k: "0 < length (front_door scenario)" by (simp add: scenario_def)
  have f: "front_door_node scenario 0 = 3" "node_count scenario = 4"
    by (simp_all add: front_door_node_def node_count_def real_nodes_len_def scenario_def)
  have fd: "front_door scenario ! 0 = ''kitchen1''" by (simp add: scenario_def)
  from front_door_entry_has_dedicated_node [OF nr k]
  obtain g x where g: "generate_bubble_diagram scenario = Inr g"
    and x: "node_index scenario (front_door scenario ! 0) = Some x"
    and nm: "room_names g ! front_door_node scenario 0 = ''front_door'' @ str (Suc 0)"
    and e: "signed_edge (graph_edges g) x 1 (front_door_node scenario 0)"
    and o: "\<forall>y < node_count scenario. y \<noteq> x \<and> y \<noteq> front_door_node scenario 0
            \<longrightarrow> signed_edge (graph_edges g) y (-1) (front_door_node scenario 0)"
    by blast
  from x fd have x0: "x = 0" by (simp add: scenario_node_index)
  have s1: "str (Suc 0) = ''1''" by (simp add: str.simps digit_char_def)
  from o [rule_format, of 1] o [rule_format, of 2] x0 f
  have "signed_edge (graph_edges g) 1 (-1) 3" "signed_edge (graph_edges g) 2 (-1) 3"
    by simp_all
  with g nm e x0 f s1 show ?thesis by auto
qed

section \<open>A connection declared twice\<close>

lemma insert_connection_simps [simp]:
  "complete_room_list (insert_connection p pair r) = complete_room_list r"
  "modified_room_list (insert_connection p pair r) = modified_room_list r"
  "front_door (insert_connection p pair r) = front_door r"
  "connection (insert_connection p pair r) = take p (connection r) @ pair # drop p (connection r)"
  "real_nodes_len (insert_connection p pair r) = real_nodes_len r"
  "room_name_dict (insert_connection p pair r) = room_name_dict r"
  by (simp_all add: insert_connection_def real_nodes_len_def room_name_dict_def)

lemma insert_connection_counts:
  assumes "p \<le> length (connection r)"
  shows "length (connection (insert_connection p pair r)) = Suc (length (connection r))"
    and "node_count (insert_connection p pair r) = Suc (node_count r)"
    and "front_door_node (insert_connection p pair r) k = Suc (front_door_node r k)"
    and "interior_door_node (insert_connection p pair r) k = interior_door_node r k"
  using assms by (simp_all add: node_count_def front_door_node_def interior_door_node_def)

lemma insert_connection_nth:
  assumes "p \<le> length (connection r)"
  shows "connection (insert_connection p pair r) ! k =
           (if k < p then connection r ! k else if k = p then pair else connection r ! (k - 1))"
proof -
  have len: "length (take p (connection r)) = p" using assms by simp
  consider "k < p" | "k = p" | "p < k" by arith
  then show ?thesis
  proof cases
    case 1
    with assms show ?thesis by (simp add: nth_append)
  next
    case 2
    with assms show ?thesis by (simp add: nth_append)
  next
    case 3
    then have "p + (k - Suc p) = k - 1" by simp
    with 3 assms show ?thesis
      by (simp add: nth_append nth_Cons')
  qed
qed

lemma names_resolve_node_index_iff:
  assumes "names_resolve r"
  shows "node_index r x = Some i \<longleftrightarrow>
           i < real_nodes_len r \<and> room_name_dict r x = Some (modified_room_list r ! i)"
proof
  assume ni: "node_index r x = Some i"
  then obtain s where s: "room_name_dict r x = Some s"
    and rd: "room_dict (room_list_ext r) s = Some i"
    by (auto simp: node_index_def split: option.splits)
  from names_resolve_node_index [OF assms ni] have i: "i < real_nodes_len r" by simp
  have d: "distinct (room_list_ext r)" using assms by (simp add: names_resolve_def)
  from rd d have "room_list_ext r ! i = s" by (simp add: room_dict_distinct)
  with i have "modified_room_list r ! i = s" by (simp add: nth_room_list_ext_room)
  with i s show "i < real_nodes_len r \<and> room_name_dict r x = Some (modified_room_list r ! i)"
    by simp
next
  assume a: "i < real_nodes_len r \<and> room_name_dict r x = Some (modified_room_list r ! i)"
  have d: "distinct (room_list_ext r)" using assms by (simp add: names_resolve_def)
  have "i < length (room_list_ext r)" using a by (simp add: room_list_ext_def real_nodes_len_def)
  moreover have "room_list_ext r ! i = modified_room_list r ! i"
    using a by (simp add: nth_room_list_ext_room)
  ultimately have "room_dict (room_list_ext r) (modified_room_list r ! i) = Some i"
    using d by (simp add: room_dict_distinct)
  with a show "node_index r x = Some i" by (simp add: node_index_def)
qed

lemma insert_connection_node_index:
  assumes "names_resolve r" and "names_resolve (insert_connection p pair r)"
  shows "node_index (insert_connection p pair r) x = Some i \<longleftrightarrow> node_index r x = Some i"
  unfolding names_resolve_node_index_iff [OF assms(1)] names_resolve_node_index_iff [OF assms(2)]
  by simp

lemma insert_connection_declares:
  assumes nr: "names_resolve r" and r': "r' = insert_connection p (a, b) r"
    and nr': "names_resolve r'" and p: "p \<le> length (connection r)"
  shows "declares r' k i j \<longleftrightarrow>
           (k < p \<and> declares r k i j)
         \<or> (k = p \<and> ((node_index r a = Some i \<and> node_index r b = Some j)
                    \<or> (node_index r a = Some j \<and> node_index r b = Some i)))
         \<or> (p < k \<and> declares r (k - 1) i j)"
proof -
  have ni: "node_index r' x = Some y \<longleftrightarrow> node_index r x = Some y" for x y
    using insert_connection_node_index [OF nr] nr' unfolding r' by blast
  have len: "length (connection r') = Suc (length (connection r))"
    unfolding r' using p by (rule insert_connection_counts)
  have nth: "connection r' ! k =
      (if k < p then connection r ! k else if k = p then (a, b) else connection r ! (k - 1))" for k
    unfolding r' using p by (rule insert_connection_nth)
  consider "k < p" | "k = p" | "p < k" by arith
  then show ?thesis
  proof cases
    case 1
    with p show ?thesis by (simp add: declares_def ni len nth)
  next
    case 2
    with p show ?thesis by (simp add: declares_def ni len nth)
  next
    case 3
    then have "k < Suc (length (connection r)) \<longleftrightarrow> k - 1 < length (connection r)" by arith
    with 3 show ?thesis by (simp add: declares_def ni len nth)
  qed
qed

lemma repeated_pair_declared:
  assumes "k0 < length (connection r)"
    and "{fst (connection r ! k0), snd (connection r ! k0)} = {a, b}"
    and "(node_index r a = Some i \<and> node_index r b = Some j)
          \<or> (node_index r a = Some j \<and> node_index r b = Some i)"
  shows "declares r k0 i j"
proof -
  from assms(2) have "(fst (connection r ! k0) = a \<and> snd (connection r ! k0) = b)
      \<or> (fst (connection r ! k0) = b \<and> snd (connection r ! k0) = a)"
    by (simp add: doubleton_eq_iff)
  with assms(1,3) show ?thesis
    unfolding declares_def by auto
qed

lemma insert_connection_first_declares:
  assumes nr: "names_resolve r" and r': "r' = insert_connection p (a, b) r"
    and nr': "names_resolve r'" and p: "p \<le> length (connection r)"
    and k0: "k0 < p" "{fst (connection r ! k0), snd (connection r ! k0)} = {a, b}"
  shows "first_declares r' k i j \<longleftrightarrow>
           (k < p \<and> first_declares r k i j) \<or> (p < k \<and> first_declares r (k - 1) i j)"
proof -
  note dec = insert_connection_declares [OF nr r' nr' p]
  have k0n: "k0 < length (connection r)" using k0(1) p by simp
  have dup: "declares r k0 i j" if "(node_index r a = Some i \<and> node_index r b = Some j)
          \<or> (node_index r a = Some j \<and> node_index r b = Some i)"
    using repeated_pair_declared [OF k0n k0(2) that] .
  consider "k < p" | "k = p" | "p < k" by arith
  then show ?thesis
  proof cases
    case 1
    have "(\<forall>k' < k. \<not> declares r' k' i j) \<longleftrightarrow> (\<forall>k' < k. \<not> declares r k' i j)"
      using 1 by (auto simp: dec)
    with 1 show ?thesis by (simp add: first_declares_def dec)
  next
    case 2
    have "\<not> first_declares r' p i j"
    proof
      assume f: "first_declares r' p i j"
      then have "declares r' p i j" by (simp add: first_declares_def)
      then have "declares r k0 i j" using dup by (simp add: dec)
      then have "declares r' k0 i j" using k0(1) by (simp add: dec)
      with f k0(1) show False by (simp add: first_declares_def)
    qed
    with 2 show ?thesis by simp
  next
    case 3
    show ?thesis
    proof
      assume f: "first_declares r' k i j"
      then have d: "declares r (k - 1) i j" using 3 by (simp add: first_declares_def dec)
      have "\<not> declares r k' i j" if "k' < k - 1" for k'
      proof (cases "k' < p")
        case True
        with f 3 have "\<not> declares r' k' i j" by (simp add: first_declares_def)
        with True show ?thesis by (simp add: dec)
      next
        case False
        with that f have "\<not> declares r' (Suc k') i j" by (simp add: first_declares_def)
        with False show ?thesis by (simp add: dec)
      qed
      with d 3 show "(k < p \<and> first_declares r k i j) \<or> (p < k \<and> first_declares r (k - 1) i j)"
        by (simp add: first_declares_def)
    next
      assume "(k < p \<and> first_declares r k i j) \<or> (p < k \<and> first_declares r (k - 1) i j)"
      with 3 have f: "first_declares r (k - 1) i j" by simp
      then have d: "declares r' k i j" using 3 by (simp add: first_declares_def dec)
      have "\<not> declares r' k' i j" if k': "k' < k" for k'
      proof -
        consider "k' < p" | "k' = p" | "p < k'" by arith
        then show ?thesis
        proof cases
          case 1
          with 3 f have "\<not> declares r k' i j" by (simp add: first_declares_def)
          with 1 show ?thesis by (simp add: dec)
        next
          case 2
          have "\<not> declares r k0 i j" using f k0(1) 3 by (simp add: first_declares_def)
          with dup 2 show ?thesis by (auto simp: dec)
        next
          case 3
          with k' f have "\<not> declares r (k' - 1) i j" by (simp add: first_declares_def)
          with 3 show ?thesis by (simp add: dec)
        qed
      qed
      with d show "first_declares r' k i j" by (simp add: first_declares_def)
    qed
  qed
qed

lemma positive_pairs_cases:
  assumes "(x, y) \<in> positive_pairs r"
  obtains (rooms) k where "x < y" "first_declares r k x y"
    | (door) j k where "x \<noteq> j" "first_declares r k x j" "y = interior_door_node r k"
    | (front) k where "k < length (front_door r)" "node_index r (front_door r ! k) = Some x"
        "y = front_door_node r k"
  using assms unfolding positive_pairs_def by blast

lemma positive_pairs_rooms: "i < j \<Longrightarrow> first_declares r k i j \<Longrightarrow> (i, j) \<in> positive_pairs r"
  unfolding positive_pairs_def by blast

lemma positive_pairs_door:
  "i \<noteq> j \<Longrightarrow> first_declares r k i j \<Longrightarrow> (i, interior_door_node r k) \<in> positive_pairs r"
  unfolding positive_pairs_def by blast

lemma positive_pairs_front:
  "k < length (front_door r) \<Longrightarrow> node_index r (front_door r ! k) = Some i
     \<Longrightarrow> (i, front_door_node r k) \<in> positive_pairs r"
  unfolding positive_pairs_def by blast

lemma first_declares_rooms:
  assumes "names_resolve r" and "first_declares r k i j"
  shows "i < real_nodes_len r" "j < real_nodes_len r" "k < length (connection r)"
  using declares_names [OF assms(1), of k i j] assms(2) by (simp_all add: first_declares_def)

lemma positive_pairs_insert_connection:
  assumes nr: "names_resolve r" and r': "r' = insert_connection p (a, b) r"
    and nr': "names_resolve r'" and p: "p \<le> length (connection r)"
    and k0: "k0 < p" "{fst (connection r ! k0), snd (connection r ! k0)} = {a, b}"
  shows "(x, y) \<in> positive_pairs r' \<longleftrightarrow>
           (\<exists>i j. (i, j) \<in> positive_pairs r \<and> x = renumber (interior_door_node r p) i
                  \<and> y = renumber (interior_door_node r p) j)"
proof -
  let ?m = "real_nodes_len r" and ?d = "interior_door_node r p"
  let ?ren = "renumber ?d"
  note fd = insert_connection_first_declares [OF nr r' nr' p k0]
  have ni: "node_index r' z = Some i \<longleftrightarrow> node_index r z = Some i" for z i
    using insert_connection_node_index [OF nr] nr' unfolding r' by blast
  have idn: "interior_door_node r' k = interior_door_node r k" for k
    unfolding r' using p by (rule insert_connection_counts)
  have fdn: "front_door_node r' k = Suc (front_door_node r k)" for k
    unfolding r' using p by (rule insert_connection_counts)
  have fdl: "front_door r' = front_door r" by (simp add: r')
  have room: "?ren i = i" if "i < ?m" for i
    using that by (simp add: renumber_def interior_door_node_def)
  have ren_lo: "?ren (interior_door_node r k) = interior_door_node r k" if "k < p" for k
    using that by (simp add: renumber_def interior_door_node_def)
  have ren_hi: "?ren (interior_door_node r k) = interior_door_node r (Suc k)" if "p \<le> k" for k
    using that by (simp add: renumber_def interior_door_node_def)
  have ren_fd: "?ren (front_door_node r k) = Suc (front_door_node r k)" for k
    using p by (simp add: renumber_def interior_door_node_def front_door_node_def)
  show ?thesis
  proof
    assume "(x, y) \<in> positive_pairs r'"
    then show "\<exists>i j. (i, j) \<in> positive_pairs r \<and> x = ?ren i \<and> y = ?ren j"
    proof (cases rule: positive_pairs_cases)
      case (rooms k)
      from rooms(2) obtain k' where f: "first_declares r k' x y" unfolding fd by blast
      from first_declares_rooms [OF nr f] have "?ren x = x" "?ren y = y" by (simp_all add: room)
      with positive_pairs_rooms [OF rooms(1) f] show ?thesis by metis
    next
      case (door j k)
      from door(2) consider (lo) "k < p" "first_declares r k x j"
        | (hi) "p < k" "first_declares r (k - 1) x j" unfolding fd by blast
      then show ?thesis
      proof cases
        case lo
        from first_declares_rooms [OF nr lo(2)] have "?ren x = x" by (simp add: room)
        moreover have "?ren (interior_door_node r k) = y"
          using lo(1) door(3) by (simp add: ren_lo idn)
        ultimately show ?thesis using positive_pairs_door [OF door(1) lo(2)] by metis
      next
        case hi
        from first_declares_rooms [OF nr hi(2)] have "?ren x = x" by (simp add: room)
        moreover have "?ren (interior_door_node r (k - 1)) = y"
          using hi(1) door(3) ren_hi [of "k - 1"] by (simp add: idn)
        ultimately show ?thesis using positive_pairs_door [OF door(1) hi(2)] by metis
      qed
    next
      case (front k)
      from front(2) have x: "node_index r (front_door r ! k) = Some x" by (simp add: ni fdl)
      from names_resolve_node_index [OF nr x] have "?ren x = x" by (simp add: room)
      moreover have "?ren (front_door_node r k) = y" using front(3) by (simp add: ren_fd fdn)
      moreover have "(x, front_door_node r k) \<in> positive_pairs r"
        using front(1) x by (intro positive_pairs_front) (simp_all add: fdl)
      ultimately show ?thesis by metis
    qed
  next
    assume "\<exists>i j. (i, j) \<in> positive_pairs r \<and> x = ?ren i \<and> y = ?ren j"
    then obtain i j where ij: "(i, j) \<in> positive_pairs r" and x: "x = ?ren i" and y: "y = ?ren j"
      by blast
    from ij show "(x, y) \<in> positive_pairs r'"
    proof (cases rule: positive_pairs_cases)
      case (rooms k)
      from first_declares_rooms [OF nr rooms(2)] have xy: "x = i" "y = j"
        by (simp_all add: x y room)
      from first_declares_rooms(3) [OF nr rooms(2)] p
      have "first_declares r' (if k < p then k else Suc k) i j"
        unfolding fd using rooms(2) by auto
      with rooms(1) xy show ?thesis by (auto intro: positive_pairs_rooms)
    next
      case (door j' k)
      from first_declares_rooms [OF nr door(2)] have xi: "x = i" by (simp add: x room)
      show ?thesis
      proof (cases "k < p")
        case True
        with door(2) have "first_declares r' k i j'" unfolding fd by simp
        from positive_pairs_door [OF door(1) this] True door(3) xi show ?thesis
          by (simp add: y ren_lo idn)
      next
        case False
        with door(2) have "first_declares r' (Suc k) i j'" unfolding fd by simp
        from positive_pairs_door [OF door(1) this] False door(3) xi show ?thesis
          by (simp add: y ren_hi idn)
      qed
    next
      case (front k)
      from names_resolve_node_index [OF nr front(2)] have xi: "x = i" by (simp add: x room)
      have "(i, front_door_node r' k) \<in> positive_pairs r'"
        using front(1,2) by (intro positive_pairs_front) (simp_all add: fdl ni)
      with front(3) xi show ?thesis by (simp add: y ren_fd fdn)
    qed
  qed
qed

lemma renumber_facts:
  "renumber d x \<noteq> d" "renumber d x = renumber d y \<longleftrightarrow> x = y"
  "renumber d x < renumber d y \<longleftrightarrow> x < y"
  "d \<le> n \<Longrightarrow> renumber d x < Suc n \<longleftrightarrow> x < n"
  by (auto simp: renumber_def)

lemma map_sum_InrD: "map_sum f h x = Inr y \<Longrightarrow> \<exists>z. x = Inr z \<and> y = h z"
  by (cases x) auto

text \<open>
  Claim C9, amended: multiplicity is not ignored. For every input whose names resolve,
  putting into the connection list, at position \<open>p\<close>, one more entry for an unordered pair
  of rooms that an earlier entry declares already adds one node to the graph, the door
  node of the new entry at index \<open>len(modified_room_list) + p\<close>; every edge of that node
  is \<open>-1\<close>; and the remaining signed edges are those of the graph compiled without the
  entry, with every node index from that of the new node on moved up by one.
\<close>

theorem repeated_connection_adds_door_node:
  assumes nr: "names_resolve r" and r': "r' = insert_connection p (a, b) r"
    and nr': "names_resolve r'" and p: "p \<le> length (connection r)"
    and k0: "k0 < p" "{fst (connection r ! k0), snd (connection r ! k0)} = {a, b}"
  shows "\<exists>g g'. generate_bubble_diagram r = Inr g \<and> generate_bubble_diagram r' = Inr g'
           \<and> length (node_codes g') = Suc (length (node_codes g))
           \<and> (\<forall>y < node_count r'. y \<noteq> interior_door_node r p
                 \<longrightarrow> signed_edge (graph_edges g') y (-1) (interior_door_node r p))
           \<and> (\<forall>i s j. (i, s, j) \<in> set (graph_edges g)
                 \<longleftrightarrow> (renumber (interior_door_node r p) i, s,
                        renumber (interior_door_node r p) j) \<in> set (graph_edges g'))"
proof -
  let ?d = "interior_door_node r p"
  let ?n = "node_count r"
  from names_resolve_compiles [OF nr] obtain g where g: "generate_bubble_diagram r = Inr g"
    and t: "tri_state (set (index_pairs ?n) - positive_pairs r) (positive_pairs r) (graph_edges g)"
    and c: "node_codes g = room_list_indices (room_list_ext r)" by blast
  from names_resolve_compiles [OF nr'] obtain g' where g': "generate_bubble_diagram r' = Inr g'"
    and t': "tri_state (set (index_pairs (node_count r')) - positive_pairs r') (positive_pairs r')
               (graph_edges g')"
    and c': "node_codes g' = room_list_indices (room_list_ext r')" by blast
  have n': "node_count r' = Suc ?n" unfolding r' using p by (rule insert_connection_counts)
  have dn: "?d \<le> ?n" using p by (simp add: interior_door_node_def node_count_def real_nodes_len_def)
  note pp = positive_pairs_insert_connection [OF nr r' nr' p k0]
  have no_d: "(x, ?d) \<notin> positive_pairs r'" "(?d, x) \<notin> positive_pairs r'" for x
    unfolding pp using renumber_facts(1) [of ?d] by metis+
  have pp_ren: "(renumber ?d i, renumber ?d j) \<in> positive_pairs r' \<longleftrightarrow> (i, j) \<in> positive_pairs r"
    for i j unfolding pp by (auto simp: renumber_facts(2))
  have len: "length (node_codes g') = Suc (length (node_codes g))"
    by (simp add: c c' room_list_indices_def length_room_list_ext n')
  have neg: "signed_edge (graph_edges g') y (-1) ?d" if "y < node_count r'" "y \<noteq> ?d" for y
  proof (cases "y < ?d")
    case True
    then have "(y, -1, ?d) \<in> set (graph_edges g')"
      unfolding compiled_positive_iff(2) [OF t'] using dn no_d by (simp add: n')
    with True show ?thesis by (simp add: signed_edge_def min_def max_def)
  next
    case False
    with that have "?d < y" by simp
    then have "(?d, -1, y) \<in> set (graph_edges g')"
      unfolding compiled_positive_iff(2) [OF t'] using that no_d by simp
    with \<open>?d < y\<close> show ?thesis by (simp add: signed_edge_def min_def max_def)
  qed
  have edges: "(i, s, j) \<in> set (graph_edges g)
      \<longleftrightarrow> (renumber ?d i, s, renumber ?d j) \<in> set (graph_edges g')" for i s j
    unfolding in_tri_state [OF t] in_tri_state [OF t']
    by (simp add: pp_ren n' renumber_facts(3) renumber_facts(4) [OF dn])
  from g g' len neg edges show ?thesis by blast
qed

lemma scenario_twice_insert:
  "scenario_twice = insert_connection 1 (''bedroom1'', ''kitchen1'') scenario"
  by (simp add: scenario_twice_def insert_connection_def scenario_def)

lemma scenario_twice_resolves: "names_resolve scenario_twice"
  by (simp add: names_resolve_def scenario_twice_def scenario_def room_list_ext_def
      interior_door_list_def front_door_list_def str.simps digit_char_def)

lemma scenario_names_resolve: "names_resolve scenario"
  using scenario_well_formed by (simp add: well_formed_def)

text \<open>
  Claim C9 as stated has the graph unchanged by a repeated connection. On the scenario
  with its connection declared a second time the graph has five nodes, not four: the
  second entry gets a door node \<open>interior_door2\<close> of its own.
\<close>

theorem repeated_connection_changes_graph:
  "map_sum id node_codes (generate_bubble_diagram scenario_twice) = Inr [2, 3, 17, 17, 15]
   \<and> map_sum id node_codes (generate_bubble_diagram scenario) = Inr [2, 3, 17, 15]
   \<and> map_sum id graph_edges (generate_bubble_diagram scenario_twice)
       \<noteq> map_sum id graph_edges (generate_bubble_diagram scenario)"
  by code_simp

theorem repeated_connection_adds_door_node_witness:
  "\<exists>g g'. generate_bubble_diagram scenario = Inr g
      \<and> generate_bubble_diagram scenario_twice = Inr g'
      \<and> length (node_codes g') = Suc (length (node_codes g))
      \<and> signed_edge (graph_edges g') 0 (-1) 3
      \<and> ((0, 1, 3) \<in> set (graph_edges g)) = ((0, 1, 4) \<in> set (graph_edges g'))"
proof -
  have k: "{fst (connection scenario ! 0), snd (connection scenario ! 0)}
             = {''bedroom1'', ''kitchen1''}"
    by (simp add: scenario_def insert_commute)
  have d: "interior_door_node scenario 1 = 3"
    by (simp add: interior_door_node_def real_nodes_len_def scenario_def)
  have n: "node_count scenario_twice = 5"
    by (simp add: node_count_def scenario_twice_def scenario_def)
  from repeated_connection_adds_door_node [OF scenario_names_resolve scenario_twice_insert
      scenario_twice_resolves _ _ k]
  obtain g g' where g: "generate_bubble_diagram scenario = Inr g"
      "generate_bubble_diagram scenario_twice = Inr g'"
      "length (node_codes g') = Suc (length (node_codes g))"
    and neg: "\<forall>y < node_count scenario_twice. y \<noteq> interior_door_node scenario 1
                 \<longrightarrow> signed_edge (graph_edges g') y (-1) (interior_door_node scenario 1)"
    and e: "\<forall>i s j. (i, s, j) \<in> set (graph_edges g)
                 \<longleftrightarrow> (renumber (interior_door_node scenario 1) i, s,
                        renumber (interior_door_node scenario 1) j) \<in> set (graph_edges g')"
    by (auto simp: scenario_def)
  from neg [rule_format, of 0] have "signed_edge (graph_edges g') 0 (-1) 3"
    unfolding d n by simp
  moreover from e [rule_format, of 0 1 3]
  have "((0, 1, 3) \<in> set (graph_edges g)) = ((0, 1, 4) \<in> set (graph_edges g'))"
    unfolding d by (simp add: renumber_def)
  ultimately show ?thesis using g by blast
qed

end
